theory Spec2Isabelle
  imports Main "HOL-Library.AList"
begin

section \<open>Data model\<close>

text \<open>
  A path is the list of its components below the root, as \<open>pathlib\<close> holds it after
  parsing; \<open>p / name\<close> appends one component and \<open>p.parent\<close> drops the last one.
  File and category names are single components. Characters are HOL's 8-bit characters.
\<close>

type_synonym path = "string list"

text \<open>What the operating system holds at a path: a regular file with its content, or a
  directory. The file system is an association list from paths to nodes, so that the order
  in which \<open>iterdir\<close> yields the entries of a directory (any order the list can have) is
  part of the model.\<close>

datatype node = File string | Dir

type_synonym filesystem = "(path \<times> node) list"

text \<open>The exceptions of the Python runtime and of \<open>shutil\<close> that the modelled calls raise.\<close>

datatype exn =
    FileNotFoundError
  | PermissionError
  | IsADirectoryError
  | NotADirectoryError
  | FileExistsError
  | ShutilError

text \<open>One entry of the module-level table \<open>CATEGORIES\<close>: the three lists of a category.\<close>

record props =
  "keywords" :: "string list"
  extensions :: "string list"
  mime_types :: "string list"

text \<open>\<open>CATEGORIES\<close> is a Python dict: keys in insertion order.\<close>

type_synonym registry = "(string \<times> props) list"

definition CATEGORIES :: registry where
  "CATEGORIES =
    [(''Documents'', \<lparr>keywords = [''report'', ''invoice'', ''letter'', ''contract''],
                     extensions = [''doc'', ''docx'', ''pdf'', ''txt''],
                     mime_types = [''application/pdf'', ''text/plain'', ''application/msword'']\<rparr>),
     (''Images'', \<lparr>keywords = [''photo'', ''image'', ''picture''],
                  extensions = [''jpg'', ''png'', ''jpeg'', ''gif''],
                  mime_types = [''image/jpeg'', ''image/png'', ''image/gif'']\<rparr>),
     (''Media'', \<lparr>keywords = [''video'', ''audio'', ''movie''],
                 extensions = [''mp4'', ''mp3'', ''wav''],
                 mime_types = [''video/mp4'', ''audio/mpeg'', ''audio/wav'']\<rparr>),
     (''Code'', \<lparr>keywords = [''script'', ''code'', ''program''],
                extensions = [''py'', ''js'', ''html'', ''cpp''],
                mime_types = [''text/x-python'', ''application/javascript'', ''text/html'',
                              ''text/x-c++'']\<rparr>)]"

text \<open>
  The collaborators outside the module, as parameters:
  \<^item> \<open>unreadable p\<close>: opening \<open>p\<close> for reading raises (permissions, I/O);
  \<^item> \<open>md5_hex c\<close>: \<open>hashlib.md5(c).hexdigest()\<close>;
  \<^item> \<open>magic_mime c\<close>: the type libmagic gives for content \<open>c\<close>;
  \<^item> \<open>pdf_pages c\<close>: the concatenated page texts PyPDF2 extracts, or the exception it raises;
  \<^item> \<open>decode_text c\<close>: the content decoded as UTF-8 with undecodable bytes dropped;
  \<^item> \<open>nltk_nouns t\<close>: the tokens of \<open>t\<close> that \<open>pos_tag\<close> tags with a tag starting \<open>NN\<close>;
  \<^item> \<open>move_denied src dst\<close>, \<open>mkdir_denied p\<close>, \<open>rmdir_denied p\<close>: the operating system
    refuses the operation (permissions, I/O);
  \<^item> \<open>log_unwritable\<close>: opening \<open>restore_log.json\<close> for writing raises.
\<close>

record env =
  unreadable :: "path \<Rightarrow> bool"
  md5_hex :: "string \<Rightarrow> string"
  magic_mime :: "string \<Rightarrow> string"
  pdf_pages :: "string \<Rightarrow> exn + string"
  decode_text :: "string \<Rightarrow> string"
  nltk_nouns :: "string \<Rightarrow> string list"
  move_denied :: "path \<Rightarrow> path \<Rightarrow> bool"
  mkdir_denied :: "path \<Rightarrow> bool"
  rmdir_denied :: "path \<Rightarrow> bool"
  log_unwritable :: bool

section \<open>Paths and strings\<close>

definition name :: "path \<Rightarrow> string" where
  "name p = (if p = [] then [] else last p)"

definition parent :: "path \<Rightarrow> path" where
  "parent p = butlast p"

text \<open>\<open>str.lower\<close> on ASCII letters.\<close>

definition lower_char :: "char \<Rightarrow> char" where
  "lower_char c =
     (let n = (of_char c :: nat) in if 65 \<le> n \<and> n \<le> 90 then char_of (n + 32) else c)"

definition lower :: "string \<Rightarrow> string" where
  "lower s = map lower_char s"

text \<open>\<open>PurePath.suffix\<close>: with \<open>i = name.rfind('.')\<close>, the text from \<open>i\<close> on when
  \<open>0 < i < len(name) - 1\<close>, else the empty string. \<open>suffix_tail\<close> is \<open>suffix[1:]\<close>.\<close>

definition suffix_tail :: "string \<Rightarrow> string" where
  "suffix_tail nm =
     (let e = rev (takeWhile (\<lambda>c. c \<noteq> CHR ''.'') (rev nm))
      in if CHR ''.'' \<in> set nm \<and> e \<noteq> [] \<and> length e + 1 < length nm then e else [])"

section \<open>Reading files\<close>

text \<open>\<open>open(path, 'rb')\<close> followed by \<open>read()\<close>.\<close>

definition read_file :: "env \<Rightarrow> filesystem \<Rightarrow> path \<Rightarrow> exn + string" where
  "read_file E fs p =
     (case map_of fs p of
        None \<Rightarrow> Inl FileNotFoundError
      | Some Dir \<Rightarrow> Inl IsADirectoryError
      | Some (File c) \<Rightarrow> if unreadable E p then Inl PermissionError else Inr c)"

text \<open>\<open>get_file_hash\<close>: every exception becomes \<open>None\<close>.\<close>

definition get_file_hash :: "env \<Rightarrow> filesystem \<Rightarrow> path \<Rightarrow> string option" where
  "get_file_hash E fs p =
     (case read_file E fs p of Inl e \<Rightarrow> None | Inr c \<Rightarrow> Some (md5_hex E c))"

text \<open>\<open>mime.from_file\<close> of python-magic opens the file first, and raises what \<open>open\<close>
  raises; then it asks libmagic.\<close>

definition from_file :: "env \<Rightarrow> filesystem \<Rightarrow> path \<Rightarrow> exn + string" where
  "from_file E fs p =
     (case read_file E fs p of Inl e \<Rightarrow> Inl e | Inr c \<Rightarrow> Inr (magic_mime E c))"

text \<open>\<open>extract_text_from_pdf\<close>: every exception becomes the empty string.\<close>

definition extract_text_from_pdf :: "env \<Rightarrow> filesystem \<Rightarrow> path \<Rightarrow> string" where
  "extract_text_from_pdf E fs p =
     (case read_file E fs p of
        Inl e \<Rightarrow> []
      | Inr c \<Rightarrow> (case pdf_pages E c of Inl e \<Rightarrow> [] | Inr t \<Rightarrow> lower t))"

text \<open>\<open>analyze_content\<close>: the nouns among the tokens of the first 2000 characters.\<close>

definition analyze_content :: "env \<Rightarrow> string \<Rightarrow> string list" where
  "analyze_content E text = nltk_nouns E (take 2000 text)"

section \<open>The classifier\<close>

text \<open>The three loops of \<open>categorize_file\<close> over \<open>CATEGORIES.items()\<close> have one shape: go
  through the table in its order and return from the function at the first category whose
  test holds. \<open>None\<close> is the loop running to its end.\<close>

fun first_category :: "(props \<Rightarrow> bool) \<Rightarrow> registry \<Rightarrow> string option" where
  "first_category test [] = None"
| "first_category test ((category, pr) # rest) =
     (if test pr then Some category else first_category test rest)"

text \<open>The tests of the three loops.\<close>

definition mime_test :: "string \<Rightarrow> props \<Rightarrow> bool" where
  "mime_test mime_type pr = (mime_type \<in> set (mime_types pr))"

definition ext_test :: "string \<Rightarrow> props \<Rightarrow> bool" where
  "ext_test file_ext pr = (file_ext \<in> set (extensions pr))"

definition keyword_test :: "string list \<Rightarrow> props \<Rightarrow> bool" where
  "keyword_test nouns pr = list_ex (\<lambda>keyword. keyword \<in> set nouns) (keywords pr)"

text \<open>The text that step 3 analyses: the text of the PDF when the extension is \<open>pdf\<close> and
  that text is not empty, else the file read as text and lowered. \<open>Inl\<close> is the exception
  of the read, which step 3 catches.\<close>

definition content_text :: "env \<Rightarrow> filesystem \<Rightarrow> path \<Rightarrow> string \<Rightarrow> exn + string" where
  "content_text E fs p file_ext =
     (let text = (if file_ext = ''pdf'' then extract_text_from_pdf E fs p else [])
      in if text = [] then
           (case read_file E fs p of
              Inl e \<Rightarrow> Inl e
            | Inr c \<Rightarrow> Inr (lower (decode_text E c)))
         else Inr text)"

text \<open>\<open>categorize_file\<close>. The call of \<open>mime.from_file\<close> is outside every \<open>try\<close>, so its
  exception leaves the function.\<close>

definition categorize_file :: "env \<Rightarrow> registry \<Rightarrow> filesystem \<Rightarrow> path \<Rightarrow> exn + string" where
  "categorize_file E cats fs p =
     (let file_ext = lower (suffix_tail (name p)) in
      case from_file E fs p of
        Inl e \<Rightarrow> Inl e
      | Inr mime_type \<Rightarrow>
         (case first_category (mime_test mime_type) cats of
            Some category \<Rightarrow> Inr category
          | None \<Rightarrow>
             (case first_category (ext_test file_ext) cats of
                Some category \<Rightarrow> Inr category
              | None \<Rightarrow>
                 (if mime_type \<in> set [''application/pdf'', ''text/plain''] then
                    (case content_text E fs p file_ext of
                       Inl e \<Rightarrow> Inr ''Uncategorized''
                     | Inr text \<Rightarrow>
                        (case first_category (keyword_test (analyze_content E text)) cats of
                           Some category \<Rightarrow> Inr category
                         | None \<Rightarrow> Inr ''Uncategorized''))
                  else Inr ''Uncategorized''))))"

section \<open>File-system operations\<close>

definition is_file :: "filesystem \<Rightarrow> path \<Rightarrow> bool" where
  "is_file fs p = (case map_of fs p of Some (File c) \<Rightarrow> True | _ \<Rightarrow> False)"

definition is_dir :: "filesystem \<Rightarrow> path \<Rightarrow> bool" where
  "is_dir fs p = (map_of fs p = Some Dir)"

text \<open>The entries directly inside \<open>d\<close>, in the order the file system holds them.\<close>

definition children :: "filesystem \<Rightarrow> path \<Rightarrow> path list" where
  "children fs d = remdups (filter (\<lambda>p. p \<noteq> [] \<and> parent p = d) (map fst fs))"

text \<open>\<open>Path.iterdir\<close>, consumed at once: it raises on a path that is missing or is not a
  directory.\<close>

definition iterdir :: "filesystem \<Rightarrow> path \<Rightarrow> exn + path list" where
  "iterdir fs d =
     (case map_of fs d of
        None \<Rightarrow> Inl FileNotFoundError
      | Some (File c) \<Rightarrow> Inl NotADirectoryError
      | Some Dir \<Rightarrow> Inr (children fs d))"

text \<open>\<open>Path.mkdir(exist_ok=True)\<close>: an existing directory is accepted, an existing file
  raises \<open>FileExistsError\<close>, and the parent must be a directory (\<open>parents\<close> is false).\<close>

definition mkdir_exist_ok :: "env \<Rightarrow> filesystem \<Rightarrow> path \<Rightarrow> exn + filesystem" where
  "mkdir_exist_ok E fs d =
     (case map_of fs d of
        Some Dir \<Rightarrow> Inr fs
      | Some (File c) \<Rightarrow> Inl FileExistsError
      | None \<Rightarrow>
          (case map_of fs (parent d) of
             None \<Rightarrow> Inl FileNotFoundError
           | Some (File c) \<Rightarrow> Inl NotADirectoryError
           | Some Dir \<Rightarrow>
               if mkdir_denied E d then Inl PermissionError
               else Inr (AList.update d Dir fs)))"

text \<open>Moving the directory \<open>src\<close> and all below it to \<open>dst\<close>: every key that is \<open>src\<close> or
  lies under it gets \<open>dst\<close> in the place of \<open>src\<close>.\<close>

definition is_under :: "path \<Rightarrow> path \<Rightarrow> bool" where
  "is_under src k = (take (length src) k = src)"

definition rebase :: "path \<Rightarrow> path \<Rightarrow> path \<Rightarrow> path" where
  "rebase src dst k = (if is_under src k then dst @ drop (length src) k else k)"

definition rename_tree :: "filesystem \<Rightarrow> path \<Rightarrow> path \<Rightarrow> filesystem" where
  "rename_tree fs src dst = map (\<lambda>(k, v). (rebase src dst k, v)) fs"

text \<open>\<open>os.makedirs\<close> on the ancestors of a path, shortest first, as \<open>copytree\<close> does
  for its destination.\<close>

fun makedirs :: "filesystem \<Rightarrow> path list \<Rightarrow> exn + filesystem" where
  "makedirs fs [] = Inr fs"
| "makedirs fs (d # ds) =
     (case map_of fs d of
        Some Dir \<Rightarrow> makedirs fs ds
      | Some (File c) \<Rightarrow> Inl NotADirectoryError
      | None \<Rightarrow> makedirs (AList.update d Dir fs) ds)"

definition ancestors :: "path \<Rightarrow> path list" where
  "ancestors p = map (\<lambda>n. take n p) [0..<length p]"

text \<open>
  \<open>shutil.move(src, dst)\<close>:
  \<^item> when \<open>dst\<close> is an existing directory, the real destination is \<open>dst / basename(src)\<close>,
    and \<open>shutil.Error\<close> is raised if that exists (when \<open>src\<close> is \<open>dst\<close> itself the rename
    onto itself is done and nothing changes);
  \<^item> then \<open>os.rename(src, real_dst)\<close>, which replaces an existing regular file;
  \<^item> when the rename raises \<open>OSError\<close>, a file is copied and unlinked and a directory is
    copied by \<open>copytree\<close> (which creates the missing ancestors of the destination and
    refuses an existing destination) and removed, unless the destination is inside it.
  \<open>move_node\<close> is the rename with its fallback; \<open>shutil_move\<close> calls it with a real
  destination that is not a directory.
\<close>

definition move_node :: "env \<Rightarrow> filesystem \<Rightarrow> path \<Rightarrow> path \<Rightarrow> exn + filesystem" where
  "move_node E fs src real_dst =
     (case map_of fs src of
        None \<Rightarrow> Inl FileNotFoundError
      | Some (File c) \<Rightarrow>
          if move_denied E src real_dst then Inl PermissionError
          else if src = real_dst then Inr fs
          else (case map_of fs (parent real_dst) of
                  None \<Rightarrow> Inl FileNotFoundError
                | Some (File c') \<Rightarrow> Inl NotADirectoryError
                | Some Dir \<Rightarrow> Inr (AList.update real_dst (File c) (AList.delete src fs)))
      | Some Dir \<Rightarrow>
          if move_denied E src real_dst then Inl PermissionError
          else if is_under src real_dst then Inl ShutilError
          else if map_of fs real_dst \<noteq> None then Inl FileExistsError
          else (case makedirs fs (ancestors real_dst) of
                  Inl e \<Rightarrow> Inl e
                | Inr fs' \<Rightarrow> Inr (rename_tree fs' src real_dst)))"

definition shutil_move :: "env \<Rightarrow> filesystem \<Rightarrow> path \<Rightarrow> path \<Rightarrow> exn + filesystem" where
  "shutil_move E fs src dst =
     (if is_dir fs dst then
        (if src = dst then Inr fs
         else if map_of fs (dst @ [name src]) \<noteq> None then Inl ShutilError
         else move_node E fs src (dst @ [name src]))
      else move_node E fs src dst)"

section \<open>Program state\<close>

text \<open>The file \<open>restore_log.json\<close> when it exists: either \<open>open\<close> or \<open>json.load\<close> raises
  on it, or it holds the dict \<open>json.load\<close> returns, a mapping from target path to
  original path in the order of the file, as \<open>organize_files\<close> writes it. A file that
  holds JSON of another shape is not modelled.\<close>

datatype logfile = Corrupt | Json "(path \<times> path) list"

text \<open>The lines the functions insert into the log widget.\<close>

datatype event =
    Error_directory_does_not_exist path
  | Scanning path nat
  | Skipping_duplicate string
  | Moved string string
  | Error_moving string exn
  | Organization_complete
  | Error_saving_restore_log
  | Error_no_restore_log
  | Error_restore_log_empty
  | Error_loading_restore_log
  | Restoring nat
  | Restored string
  | Error_restoring string exn
  | Skipping_not_found string
  | Removed_empty_folder string
  | Error_removing string exn
  | Restore_complete

text \<open>
  What the two functions read and change: the file system, the file \<open>RESTORE_LOG\<close> (kept
  apart from the organized tree; it lives in the working directory of the process), the
  dict \<open>move_log\<close> that the caller passes in, and the text of the log widget. The progress
  bar, the status label and the \<open>logging\<close> module are left out.
\<close>

record state =
  disk :: filesystem
  RESTORE_LOG :: "logfile option"
  move_log :: "(path \<times> path) list"
  log_widget :: "event list"

definition insert_END :: "event \<Rightarrow> state \<Rightarrow> state" where
  "insert_END ev st = st\<lparr>log_widget := log_widget st @ [ev]\<rparr>"

section \<open>The organize engine\<close>

text \<open>\<open>file_hash and file_hash in seen_hashes\<close>: \<open>None\<close> and the empty string are falsy.\<close>

definition seen_before :: "(string \<rightharpoonup> path) \<Rightarrow> string option \<Rightarrow> bool" where
  "seen_before seen_hashes file_hash =
     (case file_hash of None \<Rightarrow> False | Some h \<Rightarrow> h \<noteq> [] \<and> seen_hashes h \<noteq> None)"

definition remember :: "(string \<rightharpoonup> path) \<Rightarrow> string option \<Rightarrow> path \<Rightarrow> (string \<rightharpoonup> path)" where
  "remember seen_hashes file_hash target_path =
     (case file_hash of
        None \<Rightarrow> seen_hashes
      | Some h \<Rightarrow> if h \<noteq> [] then seen_hashes(h \<mapsto> target_path) else seen_hashes)"

text \<open>One pass through the body of the loop of \<open>organize_files\<close>. The first component is
  the exception that leaves the function, if any: \<open>categorize_file\<close> and \<open>mkdir\<close> are called
  outside the \<open>try\<close>.\<close>

definition organize_step ::
  "env \<Rightarrow> registry \<Rightarrow> path \<Rightarrow> bool \<Rightarrow> path \<Rightarrow> (string \<rightharpoonup> path) \<Rightarrow> state
     \<Rightarrow> exn option \<times> (string \<rightharpoonup> path) \<times> state" where
  "organize_step E cats source_path skip_duplicates file_path seen_hashes st =
     (let file_hash = (if skip_duplicates then get_file_hash E (disk st) file_path else None) in
      if skip_duplicates \<and> seen_before seen_hashes file_hash then
        (None, seen_hashes, insert_END (Skipping_duplicate (name file_path)) st)
      else
        (case categorize_file E cats (disk st) file_path of
           Inl e \<Rightarrow> (Some e, seen_hashes, st)
         | Inr category \<Rightarrow>
            (let target_dir = source_path @ [category] in
             case mkdir_exist_ok E (disk st) target_dir of
               Inl e \<Rightarrow> (Some e, seen_hashes, st)
             | Inr fs1 \<Rightarrow>
                (let target_path = target_dir @ [name file_path] in
                 case shutil_move E fs1 file_path target_path of
                   Inr fs2 \<Rightarrow>
                     (None,
                      (if skip_duplicates then remember seen_hashes file_hash target_path
                       else seen_hashes),
                      insert_END (Moved (name file_path) category)
                        (st\<lparr>disk := fs2,
                            move_log := AList.update target_path file_path (move_log st)\<rparr>))
                 | Inl e \<Rightarrow>
                     (None, seen_hashes,
                      insert_END (Error_moving (name file_path) e) (st\<lparr>disk := fs1\<rparr>))))))"

fun organize_loop ::
  "env \<Rightarrow> registry \<Rightarrow> path \<Rightarrow> bool \<Rightarrow> path list \<Rightarrow> (string \<rightharpoonup> path) \<Rightarrow> state
     \<Rightarrow> exn option \<times> (string \<rightharpoonup> path) \<times> state" where
  "organize_loop E cats source_path skip_duplicates [] seen_hashes st = (None, seen_hashes, st)"
| "organize_loop E cats source_path skip_duplicates (file_path # files) seen_hashes st =
     (case organize_step E cats source_path skip_duplicates file_path seen_hashes st of
        (Some e, seen', st') \<Rightarrow> (Some e, seen', st')
      | (None, seen', st') \<Rightarrow> organize_loop E cats source_path skip_duplicates files seen' st')"

text \<open>The \<open>try\<close> after the loop: \<open>json.dump(move_log, f)\<close>.\<close>

definition save_restore_log :: "env \<Rightarrow> state \<Rightarrow> state" where
  "save_restore_log E st =
     (if log_unwritable E then insert_END Error_saving_restore_log st
      else insert_END Organization_complete (st\<lparr>RESTORE_LOG := Some (Json (move_log st))\<rparr>))"

definition organize_files :: "env \<Rightarrow> registry \<Rightarrow> path \<Rightarrow> bool \<Rightarrow> state \<Rightarrow> exn option \<times> state" where
  "organize_files E cats source_dir skip_duplicates st =
     (if map_of (disk st) source_dir = None then
        (None, insert_END (Error_directory_does_not_exist source_dir) st)
      else
        (case iterdir (disk st) source_dir of
           Inl e \<Rightarrow> (Some e, st)
         | Inr entries \<Rightarrow>
            (let files = filter (is_file (disk st)) entries in
             case organize_loop E cats source_dir skip_duplicates files Map.empty
                    (insert_END (Scanning source_dir (length files)) st) of
               (Some e, seen', st') \<Rightarrow> (Some e, st')
             | (None, seen', st') \<Rightarrow> (None, save_restore_log E st'))))"

section \<open>The restore engine\<close>

definition restore_step :: "env \<Rightarrow> path \<times> path \<Rightarrow> state \<Rightarrow> state" where
  "restore_step E entry st =
     (case entry of (target_path, original_path) \<Rightarrow>
        if map_of (disk st) target_path \<noteq> None then
          (case shutil_move E (disk st) target_path original_path of
             Inr fs' \<Rightarrow> insert_END (Restored (name target_path)) (st\<lparr>disk := fs'\<rparr>)
           | Inl e \<Rightarrow> insert_END (Error_restoring (name target_path) e) st)
        else insert_END (Skipping_not_found (name target_path)) st)"

fun restore_loop :: "env \<Rightarrow> (path \<times> path) list \<Rightarrow> state \<Rightarrow> state" where
  "restore_loop E [] st = st"
| "restore_loop E (entry # entries) st = restore_loop E entries (restore_step E entry st)"

text \<open>The body of the clean-up loop: an empty directory is removed with \<open>os.rmdir\<close>.\<close>

definition cleanup_step :: "env \<Rightarrow> path \<Rightarrow> state \<Rightarrow> state" where
  "cleanup_step E subdir st =
     (if is_dir (disk st) subdir \<and> children (disk st) subdir = [] then
        (if rmdir_denied E subdir then insert_END (Error_removing (name subdir) PermissionError) st
         else insert_END (Removed_empty_folder (name subdir))
                (st\<lparr>disk := AList.delete subdir (disk st)\<rparr>))
      else st)"

fun cleanup_loop :: "env \<Rightarrow> path list \<Rightarrow> state \<Rightarrow> state" where
  "cleanup_loop E [] st = st"
| "cleanup_loop E (subdir # subdirs) st = cleanup_loop E subdirs (cleanup_step E subdir st)"

definition restore_files :: "env \<Rightarrow> bool \<Rightarrow> state \<Rightarrow> exn option \<times> state" where
  "restore_files E cleanup_empty st =
     (case RESTORE_LOG st of
        None \<Rightarrow> (None, insert_END Error_no_restore_log st)
      | Some Corrupt \<Rightarrow> (None, insert_END Error_loading_restore_log st)
      | Some (Json []) \<Rightarrow> (None, insert_END Error_restore_log_empty st)
      | Some (Json ((target0, original0) # rest)) \<Rightarrow>
         (let loaded = (target0, original0) # rest;
              source_path = parent original0;
              st' = restore_loop E loaded (insert_END (Restoring (length loaded)) st)
          in if cleanup_empty then
               (case iterdir (disk st') source_path of
                  Inl e \<Rightarrow> (Some e, st')
                | Inr subdirs \<Rightarrow>
                    (None, insert_END Restore_complete (cleanup_loop E subdirs st')))
             else (None, insert_END Restore_complete st')))"

section \<open>Notions used in the statements\<close>

text \<open>The names \<open>categorize_file\<close> can return: the keys of the table and the fallback.\<close>

definition category_names :: "registry \<Rightarrow> string set" where
  "category_names cats = insert ''Uncategorized'' (fst ` set cats)"


fun file_of_event :: "event \<Rightarrow> string option" where
  "file_of_event (Skipping_duplicate n) = Some n"
| "file_of_event (Moved n c) = Some n"
| "file_of_event (Error_moving n e) = Some n"
| "file_of_event (Restored n) = Some n"
| "file_of_event (Error_restoring n e) = Some n"
| "file_of_event (Skipping_not_found n) = Some n"
| "file_of_event ev = None"

text \<open>An entry of the restore log that \<open>restore_files\<close> can replay: a regular file is at
  the target, nothing is at the original path, the parent of the original path is a
  directory, and the operating system does not refuse the move.\<close>

definition restorable :: "env \<Rightarrow> filesystem \<Rightarrow> path \<times> path \<Rightarrow> bool" where
  "restorable E fs entry =
     (case entry of (target_path, original_path) \<Rightarrow>
        is_file fs target_path \<and> map_of fs original_path = None \<and>
        is_dir fs (parent original_path) \<and> \<not> move_denied E target_path original_path)"

text \<open>What \<open>organize_files\<close> keeps true of an entry of \<open>move_log\<close> while \<open>files\<close> are still to
  be processed: the original path was a regular file directly in the directory and its
  turn is over, the target is that name in a category folder, the folder is a directory,
  and a regular file at the target has the content the original path had at the start
  (\<open>fs0\<close>).\<close>

definition log_entry_ok ::
  "registry \<Rightarrow> path \<Rightarrow> filesystem \<Rightarrow> filesystem \<Rightarrow> path list \<Rightarrow> path \<times> path \<Rightarrow> bool" where
  "log_entry_ok cats source_path fs0 fs files entry =
     (case entry of (t, orig) \<Rightarrow>
        orig \<notin> set files \<and> orig = source_path @ [name orig] \<and> is_file fs0 orig \<and>
        (\<exists>c \<in> category_names cats. t = source_path @ [c, name orig]) \<and>
        is_dir fs (parent t) \<and>
        (\<forall>x. map_of fs t = Some (File x) \<longrightarrow> map_of fs0 orig = Some (File x)))"

section \<open>Example inputs\<close>

text \<open>A registry in which the second and the third rule overlap, collaborators that
  refuse nothing, and a directory of small files.\<close>

definition example_registry :: registry where
  "example_registry =
    [(''Archive'', \<lparr>keywords = [''backup''], extensions = [''zip''],
                   mime_types = [''application/zip'']\<rparr>),
     (''Notes'', \<lparr>keywords = [''memo''], extensions = [''md''],
                 mime_types = [''text/markdown'']\<rparr>),
     (''Papers'', \<lparr>keywords = [''memo'', ''report''], extensions = [''md'', ''tex''],
                  mime_types = [''text/markdown'', ''text/x-tex'']\<rparr>)]"

definition example_env :: env where
  "example_env =
     \<lparr>unreadable = (\<lambda>p. False),
      md5_hex = (\<lambda>c. CHR ''#'' # c),
      magic_mime = (\<lambda>c. if c = ''PNG'' then ''image/png''
                         else if c = ''MD'' then ''text/markdown''
                         else if c = ''BIN'' then ''application/octet-stream''
                         else ''text/plain''),
      pdf_pages = (\<lambda>c. Inl FileNotFoundError),
      decode_text = (\<lambda>c. c),
      nltk_nouns = (\<lambda>t. if t = ''memo'' then [''memo''] else []),
      move_denied = (\<lambda>src dst. False),
      mkdir_denied = (\<lambda>p. False),
      rmdir_denied = (\<lambda>p. False),
      log_unwritable = False\<rparr>"

definition notes_disk :: filesystem where
  "notes_disk =
     [([''src''], Dir),
      ([''src'', ''todo''], File ''MD''),
      ([''src'', ''blob.md''], File ''BIN''),
      ([''src'', ''memo.log''], File ''Memo''),
      ([''src'', ''x.xyz''], File ''BIN''),
      ([''src'', ''plain.log''], File ''hello'')]"

definition locked_env :: env where
  "locked_env = example_env\<lparr>unreadable := (\<lambda>p. p = [''src'', ''secret.txt''])\<rparr>"

definition locked_state :: state where
  "locked_state =
     \<lparr>disk = [([''src''], Dir),
              ([''src'', ''secret.txt''], File ''private''),
              ([''src'', ''b.txt''], File ''hello'')],
      RESTORE_LOG = None, move_log = [], log_widget = []\<rparr>"

definition clash_state :: state where
  "clash_state =
     \<lparr>disk = [([''src''], Dir),
              ([''src'', ''Documents''], File ''PNG''),
              ([''src'', ''a.txt''], File ''hello'')],
      RESTORE_LOG = None, move_log = [], log_widget = []\<rparr>"

definition denied_env :: env where
  "denied_env = example_env\<lparr>move_denied := (\<lambda>src dst. src = [''src'', ''a.txt''])\<rparr>"

definition twins_state :: state where
  "twins_state =
     \<lparr>disk = [([''src''], Dir),
              ([''src'', ''a.txt''], File ''same''),
              ([''src'', ''b.txt''], File ''same'')],
      RESTORE_LOG = None, move_log = [], log_widget = []\<rparr>"


section \<open>The classifier: stages and fallback\<close>

lemma first_category_first:
  "i < length cats \<Longrightarrow> test (snd (cats ! i)) \<Longrightarrow> \<forall>j<i. \<not> test (snd (cats ! j))
    \<Longrightarrow> first_category test cats = Some (fst (cats ! i))"
proof (induction cats arbitrary: i)
  case Nil
  then show ?case by simp
next
  case (Cons a cats)
  obtain c pr where a: "a = (c, pr)" by (cases a)
  show ?case
  proof (cases i)
    case 0
    with Cons.prems a show ?thesis by simp
  next
    case (Suc k)
    with Cons.prems have "\<not> test pr" using a by auto
    moreover have "first_category test cats = Some (fst (cats ! k))"
      using Cons.prems Suc by (intro Cons.IH) auto
    ultimately show ?thesis using a Suc by simp
  qed
qed

lemma first_category_none:
  "\<forall>j<length cats. \<not> test (snd (cats ! j)) \<Longrightarrow> first_category test cats = None"
proof (induction cats)
  case Nil
  then show ?case by simp
next
  case (Cons a cats)
  obtain c pr where a: "a = (c, pr)" by (cases a)
  from Cons.prems have "\<not> test pr" using a by auto
  moreover have "first_category test cats = None"
    using Cons.prems by (intro Cons.IH) auto
  ultimately show ?case using a by simp
qed

text \<open>
  C4. Once the type \<open>m\<close> is sniffed, \<open>categorize_file\<close> returns the category of the first
  stage that matches, and within a stage that of the earliest matching rule of the table:
  the rule at index \<open>i\<close> when it matches the MIME type and no rule before it does; else,
  when no rule matches the MIME type, the rule at index \<open>i\<close> when it matches the extension
  and no rule before it does; else, when no rule matches the extension either and the type
  is one of the two text-bearing ones, the rule at index \<open>i\<close> when one of its keywords is
  among the nouns of the text and this holds for no rule before it.
\<close>

theorem categorize_file_stage_priority:
  assumes sniff: "from_file E fs p = Inr m"
  defines "e \<equiv> lower (suffix_tail (name p))"
  shows
   "(i < length cats \<and> mime_test m (snd (cats ! i)) \<and> (\<forall>j<i. \<not> mime_test m (snd (cats ! j)))
       \<longrightarrow> categorize_file E cats fs p = Inr (fst (cats ! i))) \<and>
    ((\<forall>j<length cats. \<not> mime_test m (snd (cats ! j))) \<and>
     i < length cats \<and> ext_test e (snd (cats ! i)) \<and> (\<forall>j<i. \<not> ext_test e (snd (cats ! j)))
       \<longrightarrow> categorize_file E cats fs p = Inr (fst (cats ! i))) \<and>
    ((\<forall>j<length cats. \<not> mime_test m (snd (cats ! j))) \<and>
     (\<forall>j<length cats. \<not> ext_test e (snd (cats ! j))) \<and>
     m \<in> {''application/pdf'', ''text/plain''} \<and> content_text E fs p e = Inr t \<and>
     i < length cats \<and> keyword_test (analyze_content E t) (snd (cats ! i)) \<and>
     (\<forall>j<i. \<not> keyword_test (analyze_content E t) (snd (cats ! j)))
       \<longrightarrow> categorize_file E cats fs p = Inr (fst (cats ! i)))"
proof (intro conjI impI)
  assume "i < length cats \<and> mime_test m (snd (cats ! i)) \<and> (\<forall>j<i. \<not> mime_test m (snd (cats ! j)))"
  then have "first_category (mime_test m) cats = Some (fst (cats ! i))"
    by (simp add: first_category_first)
  with sniff show "categorize_file E cats fs p = Inr (fst (cats ! i))"
    by (simp add: categorize_file_def)
next
  assume h: "(\<forall>j<length cats. \<not> mime_test m (snd (cats ! j))) \<and>
     i < length cats \<and> ext_test e (snd (cats ! i)) \<and> (\<forall>j<i. \<not> ext_test e (snd (cats ! j)))"
  then have "first_category (mime_test m) cats = None"
    by (simp add: first_category_none)
  moreover from h have "first_category (ext_test e) cats = Some (fst (cats ! i))"
    by (simp add: first_category_first)
  ultimately show "categorize_file E cats fs p = Inr (fst (cats ! i))"
    using sniff by (simp add: categorize_file_def e_def)
next
  assume h: "(\<forall>j<length cats. \<not> mime_test m (snd (cats ! j))) \<and>
     (\<forall>j<length cats. \<not> ext_test e (snd (cats ! j))) \<and>
     m \<in> {''application/pdf'', ''text/plain''} \<and> content_text E fs p e = Inr t \<and>
     i < length cats \<and> keyword_test (analyze_content E t) (snd (cats ! i)) \<and>
     (\<forall>j<i. \<not> keyword_test (analyze_content E t) (snd (cats ! j)))"
  then have "first_category (mime_test m) cats = None"
    and "first_category (ext_test e) cats = None"
    by (simp_all add: first_category_none)
  moreover from h have "first_category (keyword_test (analyze_content E t)) cats = Some (fst (cats ! i))"
    by (simp add: first_category_first)
  moreover from h have "m \<in> set [''application/pdf'', ''text/plain'']"
    and "content_text E fs p (lower (suffix_tail (name p))) = Inr t"
    by (simp_all add: e_def)
  ultimately show "categorize_file E cats fs p = Inr (fst (cats ! i))"
    using sniff by (simp add: categorize_file_def e_def del: set_simps)
qed

theorem categorize_file_stage_priority_witness:
  "categorize_file example_env example_registry notes_disk [''src'', ''todo''] = Inr ''Notes'' \<and>
   categorize_file example_env example_registry notes_disk [''src'', ''blob.md''] = Inr ''Notes'' \<and>
   categorize_file example_env example_registry notes_disk [''src'', ''memo.log''] = Inr ''Notes''"
proof -
  have s1: "from_file example_env notes_disk [''src'', ''todo''] = Inr ''text/markdown''"
    by code_simp
  have s2: "from_file example_env notes_disk [''src'', ''blob.md''] = Inr ''application/octet-stream''"
    by code_simp
  have s3: "from_file example_env notes_disk [''src'', ''memo.log''] = Inr ''text/plain''"
    by code_simp
  have e2: "lower (suffix_tail (name [''src'', ''blob.md''])) = ''md''" by code_simp
  have e3: "lower (suffix_tail (name [''src'', ''memo.log''])) = ''log''" by code_simp
  have t3: "content_text example_env notes_disk [''src'', ''memo.log''] ''log'' = Inr ''memo''"
    by code_simp
  have n3: "analyze_content example_env ''memo'' = [''memo'']" by code_simp
  have c1: "categorize_file example_env example_registry notes_disk [''src'', ''todo''] = Inr ''Notes''"
    using categorize_file_stage_priority [OF s1, of 1 example_registry]
    by (simp add: example_registry_def mime_test_def less_Suc_eq)
  have c2: "categorize_file example_env example_registry notes_disk [''src'', ''blob.md''] = Inr ''Notes''"
    using categorize_file_stage_priority [OF s2, of 1 example_registry]
    by (simp add: e2 example_registry_def mime_test_def ext_test_def less_Suc_eq)
  have c3: "categorize_file example_env example_registry notes_disk [''src'', ''memo.log''] = Inr ''Notes''"
    using categorize_file_stage_priority [OF s3, of 1 example_registry "''memo''"]
    by (simp add: e3 t3 n3 example_registry_def mime_test_def ext_test_def keyword_test_def
          less_Suc_eq)
  from c1 c2 c3 show ?thesis by simp
qed

text \<open>
  C6. A file whose sniffed type is in no rule's \<open>mime_types\<close>, whose extension is in no
  rule's \<open>extensions\<close>, and for which the content stage, when it is entered and gets a
  text, finds no keyword of any rule among the nouns, is put in \<open>Uncategorized\<close>.
\<close>

theorem categorize_file_fallback:
  assumes "from_file E fs p = Inr m"
    and "\<forall>j<length cats. \<not> mime_test m (snd (cats ! j))"
    and "\<forall>j<length cats. \<not> ext_test (lower (suffix_tail (name p))) (snd (cats ! j))"
    and "\<forall>t. m \<in> {''application/pdf'', ''text/plain''} \<and>
             content_text E fs p (lower (suffix_tail (name p))) = Inr t
           \<longrightarrow> (\<forall>j<length cats. \<not> keyword_test (analyze_content E t) (snd (cats ! j)))"
  shows "categorize_file E cats fs p = Inr ''Uncategorized''"
proof -
  have "first_category (mime_test m) cats = None"
    and "first_category (ext_test (lower (suffix_tail (name p)))) cats = None"
    using assms(2,3) by (simp_all add: first_category_none)
  moreover have "first_category (keyword_test (analyze_content E t)) cats = None"
    if "m \<in> set [''application/pdf'', ''text/plain'']"
      and "content_text E fs p (lower (suffix_tail (name p))) = Inr t" for t
    using that assms(4) by (intro first_category_none) simp
  ultimately show ?thesis
    using assms(1) by (simp add: categorize_file_def split: sum.splits del: set_simps)
qed

theorem categorize_file_fallback_witness:
  "categorize_file example_env example_registry notes_disk [''src'', ''x.xyz'']
     = Inr ''Uncategorized'' \<and>
   categorize_file example_env example_registry notes_disk [''src'', ''plain.log'']
     = Inr ''Uncategorized''"
proof -
  have s1: "from_file example_env notes_disk [''src'', ''x.xyz''] = Inr ''application/octet-stream''"
    by code_simp
  have e1: "lower (suffix_tail (name [''src'', ''x.xyz''])) = ''xyz''" by code_simp
  have s2: "from_file example_env notes_disk [''src'', ''plain.log''] = Inr ''text/plain''"
    by code_simp
  have e2: "lower (suffix_tail (name [''src'', ''plain.log''])) = ''log''" by code_simp
  have t2: "content_text example_env notes_disk [''src'', ''plain.log''] ''log'' = Inr ''hello''"
    by code_simp
  have n2: "analyze_content example_env ''hello'' = []" by code_simp
  have c1: "categorize_file example_env example_registry notes_disk [''src'', ''x.xyz'']
              = Inr ''Uncategorized''"
    using categorize_file_fallback [OF s1, of example_registry]
    by (simp add: e1 example_registry_def mime_test_def ext_test_def less_Suc_eq)
  have c2: "categorize_file example_env example_registry notes_disk [''src'', ''plain.log'']
              = Inr ''Uncategorized''"
    using categorize_file_fallback [OF s2, of example_registry]
    by (simp add: e2 t2 n2 example_registry_def mime_test_def ext_test_def keyword_test_def
          less_Suc_eq)
  from c1 c2 show ?thesis by simp
qed

text \<open>
  C2. \<open>categorize_file\<close> is not total: \<open>mime.from_file\<close> is called outside every \<open>try\<close>, and
  on a file that cannot be opened for reading its exception leaves the function, where the
  later reads of the same file are guarded and end in \<open>Uncategorized\<close>.
\<close>

theorem categorize_file_raises:
  "categorize_file locked_env CATEGORIES (disk locked_state) [''src'', ''secret.txt'']
     = Inl PermissionError"
  by code_simp

section \<open>Preconditions of the two engines\<close>




text \<open>
  C8. When the persisted log is absent \<open>restore_files\<close> reports that no restore log was
  found; when it holds an empty mapping, that the log is empty; when it cannot be opened
  or parsed, the loading error. In each case it returns at once: the file system, the
  persisted log and \<open>move_log\<close> are as before.
\<close>

theorem restore_files_preconditions:
  "(RESTORE_LOG st = None \<longrightarrow>
      restore_files E cleanup_empty st = (None, insert_END Error_no_restore_log st)) \<and>
   (RESTORE_LOG st = Some (Json []) \<longrightarrow>
      restore_files E cleanup_empty st = (None, insert_END Error_restore_log_empty st)) \<and>
   (RESTORE_LOG st = Some Corrupt \<longrightarrow>
      restore_files E cleanup_empty st = (None, insert_END Error_loading_restore_log st)) \<and>
   (RESTORE_LOG st \<in> {None, Some (Json []), Some Corrupt} \<longrightarrow>
      disk (snd (restore_files E cleanup_empty st)) = disk st \<and>
      RESTORE_LOG (snd (restore_files E cleanup_empty st)) = RESTORE_LOG st \<and>
      move_log (snd (restore_files E cleanup_empty st)) = move_log st)"
  by (auto simp add: restore_files_def insert_END_def)

theorem restore_files_preconditions_witness:
  "restore_files example_env True locked_state = (None, insert_END Error_no_restore_log locked_state) \<and>
   restore_files example_env True (locked_state\<lparr>RESTORE_LOG := Some (Json [])\<rparr>)
     = (None, insert_END Error_restore_log_empty (locked_state\<lparr>RESTORE_LOG := Some (Json [])\<rparr>)) \<and>
   restore_files example_env True (locked_state\<lparr>RESTORE_LOG := Some Corrupt\<rparr>)
     = (None, insert_END Error_loading_restore_log (locked_state\<lparr>RESTORE_LOG := Some Corrupt\<rparr>)) \<and>
   disk (snd (restore_files example_env True locked_state)) = disk locked_state"
proof -
  have a: "RESTORE_LOG locked_state = None" by (simp add: locked_state_def)
  show ?thesis
    using restore_files_preconditions [of locked_state example_env True]
      restore_files_preconditions [of "locked_state\<lparr>RESTORE_LOG := Some (Json [])\<rparr>" example_env True]
      restore_files_preconditions [of "locked_state\<lparr>RESTORE_LOG := Some Corrupt\<rparr>" example_env True]
      a
    by (simp add: insert_END_def)
qed

section \<open>Errors inside the loops\<close>

text \<open>
  C10. When the move of a file raises, the pass through the loop for that file leaves
  \<open>move_log\<close> and \<open>seen_hashes\<close> as they were: no entry is recorded and no hash is
  remembered, so the duplicate test of every later file answers as it did before.
\<close>

theorem organize_step_move_failure:
  assumes "\<not> (skip_duplicates \<and> seen_before seen_hashes (get_file_hash E (disk st) file_path))"
    and "categorize_file E cats (disk st) file_path = Inr category"
    and "mkdir_exist_ok E (disk st) (source_path @ [category]) = Inr fs1"
    and "shutil_move E fs1 file_path (source_path @ [category, name file_path]) = Inl e"
  shows "organize_step E cats source_path skip_duplicates file_path seen_hashes st =
           (None, seen_hashes, insert_END (Error_moving (name file_path) e) (st\<lparr>disk := fs1\<rparr>)) \<and>
         move_log (snd (snd (organize_step E cats source_path skip_duplicates file_path
                               seen_hashes st))) = move_log st \<and>
         fst (snd (organize_step E cats source_path skip_duplicates file_path seen_hashes st))
           = seen_hashes \<and>
         (\<forall>h. seen_before (fst (snd (organize_step E cats source_path skip_duplicates file_path
                                      seen_hashes st))) h = seen_before seen_hashes h)"
proof -
  have "organize_step E cats source_path skip_duplicates file_path seen_hashes st =
          (None, seen_hashes, insert_END (Error_moving (name file_path) e) (st\<lparr>disk := fs1\<rparr>))"
    using assms by (cases skip_duplicates) (simp_all add: organize_step_def)
  then show ?thesis by (simp add: insert_END_def)
qed

theorem organize_step_move_failure_witness:
  "fst (organize_step denied_env CATEGORIES [''src''] True [''src'', ''a.txt''] Map.empty
         twins_state) = None \<and>
   move_log (snd (snd (organize_step denied_env CATEGORIES [''src''] True [''src'', ''a.txt'']
                         Map.empty twins_state))) = [] \<and>
   fst (snd (organize_step denied_env CATEGORIES [''src''] True [''src'', ''a.txt''] Map.empty
              twins_state)) = Map.empty \<and>
   log_widget (snd (organize_files denied_env CATEGORIES [''src''] True twins_state)) =
     [Scanning [''src''] 2, Error_moving ''a.txt'' PermissionError, Moved ''b.txt'' ''Documents'',
      Organization_complete]"
proof -
  have h1: "\<not> (True \<and> seen_before Map.empty
                  (get_file_hash denied_env (disk twins_state) [''src'', ''a.txt'']))"
    by (simp add: seen_before_def split: option.split)
  have h2: "categorize_file denied_env CATEGORIES (disk twins_state) [''src'', ''a.txt'']
              = Inr ''Documents''"
    by code_simp
  have h3: "mkdir_exist_ok denied_env (disk twins_state) ([''src''] @ [''Documents'']) =
              Inr [([''src''], Dir), ([''src'', ''a.txt''], File ''same''),
                   ([''src'', ''b.txt''], File ''same''), ([''src'', ''Documents''], Dir)]"
    by code_simp
  have h4: "shutil_move denied_env
              [([''src''], Dir), ([''src'', ''a.txt''], File ''same''),
               ([''src'', ''b.txt''], File ''same''), ([''src'', ''Documents''], Dir)]
              [''src'', ''a.txt''] ([''src''] @ [''Documents'', name [''src'', ''a.txt'']])
              = Inl PermissionError"
    by code_simp
  have run: "log_widget (snd (organize_files denied_env CATEGORIES [''src''] True twins_state)) =
     [Scanning [''src''] 2, Error_moving ''a.txt'' PermissionError, Moved ''b.txt'' ''Documents'',
      Organization_complete]"
    by code_simp
  have m: "move_log twins_state = []" by (simp add: twins_state_def)
  show ?thesis
    using organize_step_move_failure [OF h1 h2 h3 h4] run m by (simp add: insert_END_def)
qed

text \<open>
  C3. A classify error stops the run of \<open>organize_files\<close>: \<open>categorize_file\<close> is called
  outside the \<open>try\<close> that guards the move. In a directory of two files where the first
  cannot be opened, the exception of \<open>mime.from_file\<close> leaves \<open>organize_files\<close>; the second
  file is never attempted, nothing is reported for it, and the log is not saved.
\<close>

theorem organize_files_aborts_on_classify_error:
  "organize_files locked_env CATEGORIES [''src''] False locked_state
     = (Some PermissionError, insert_END (Scanning [''src''] 2) locked_state)"
  by code_simp

section \<open>Organize, then restore\<close>

text \<open>
  C1. A file whose name is that of a category does not come back. The image named
  \<open>Documents\<close> is moved to \<open>Images/Documents\<close>; then the folder \<open>Documents\<close> is created for
  \<open>a.txt\<close>. On restore the file is still at its target, its original path is now that
  folder, \<open>shutil.move\<close> puts it inside the folder, and the run reports it restored.
\<close>

theorem restore_into_directory:
  "fst (organize_files example_env CATEGORIES [''src''] False clash_state) = None \<and>
   map_of (disk clash_state) [''src'', ''Documents''] = Some (File ''PNG'') \<and>
   Moved ''Documents'' ''Images''
     \<in> set (log_widget (snd (organize_files example_env CATEGORIES [''src''] False clash_state))) \<and>
   map_of (disk (snd (organize_files example_env CATEGORIES [''src''] False clash_state)))
     [''src'', ''Images'', ''Documents''] = Some (File ''PNG'') \<and>
   fst (restore_files example_env False
         (snd (organize_files example_env CATEGORIES [''src''] False clash_state))) = None \<and>
   Restored ''Documents''
     \<in> set (log_widget (snd (restore_files example_env False
         (snd (organize_files example_env CATEGORIES [''src''] False clash_state))))) \<and>
   map_of (disk (snd (restore_files example_env False
         (snd (organize_files example_env CATEGORIES [''src''] False clash_state)))))
     [''src'', ''Documents''] = Some Dir \<and>
   map_of (disk (snd (restore_files example_env False
         (snd (organize_files example_env CATEGORIES [''src''] False clash_state)))))
     [''src'', ''Documents'', ''Documents''] = Some (File ''PNG'')"
  by code_simp

section \<open>What one pass through the organize loop touches\<close>

lemma is_under_refl: "is_under p p"
  by (simp add: is_under_def)

lemma is_under_append:
  assumes "is_under (p @ r) q"
  shows "is_under p q"
proof -
  have "take (length p) q = take (length p) (take (length (p @ r)) q)" by (simp add: min_def)
  also have "\<dots> = take (length p) (p @ r)" using assms by (simp add: is_under_def)
  finally show ?thesis by (simp add: is_under_def)
qed

lemma is_under_same_length: "length p = length q \<Longrightarrow> is_under p q \<longleftrightarrow> p = q"
  by (auto simp add: is_under_def)

lemma is_under_longer: "length q < length p \<Longrightarrow> \<not> is_under p q"
  by (auto simp add: is_under_def)

lemma is_under_snoc: "is_under q (p @ [x]) \<Longrightarrow> is_under q p \<or> q = p @ [x]"
  by (cases "length q \<le> length p") (auto simp add: is_under_def)

lemma ancestors_is_under: "q \<in> set (ancestors p) \<Longrightarrow> is_under q p"
  by (auto simp add: ancestors_def is_under_def min_def)

lemma makedirs_frame:
  "makedirs fs ds = Inr fs' \<Longrightarrow> q \<notin> set ds \<or> map_of fs q \<noteq> None
     \<Longrightarrow> map_of fs' q = map_of fs q"
proof (induction ds arbitrary: fs)
  case Nil
  then show ?case by simp
next
  case (Cons d ds)
  show ?case
  proof (cases "map_of fs d")
    case None
    with Cons.prems have mk: "makedirs (AList.update d Dir fs) ds = Inr fs'" by simp
    from None Cons.prems(2) have "q \<noteq> d" by auto
    then have eq: "map_of (AList.update d Dir fs) q = map_of fs q"
      by (simp add: update_conv')
    with Cons.prems(2) have "q \<notin> set ds \<or> map_of (AList.update d Dir fs) q \<noteq> None" by auto
    from Cons.IH [OF mk this] eq show ?thesis by simp
  next
    case (Some x)
    with Cons.prems show ?thesis by (cases x) (auto intro: Cons.IH)
  qed
qed

lemma rebase_eq_iff:
  "\<not> is_under src q \<Longrightarrow> \<not> is_under dst q \<Longrightarrow> q = rebase src dst k \<longleftrightarrow> q = k"
  by (auto simp add: rebase_def is_under_def)

lemma rename_tree_frame:
  assumes "\<not> is_under src q" and "\<not> is_under dst q"
  shows "map_of (rename_tree fs src dst) q = map_of fs q"
proof (induction fs)
  case Nil
  then show ?case by (simp add: rename_tree_def)
next
  case (Cons kv fs)
  obtain k v where kv: "kv = (k, v)" by (cases kv)
  from Cons.IH show ?case
    by (simp add: kv rename_tree_def rebase_eq_iff [OF assms])
qed

lemma move_node_frame:
  assumes "move_node E fs src real_dst = Inr fs'"
    and "\<not> is_under src q" and "\<not> is_under real_dst q"
    and "map_of fs q \<noteq> None \<or> \<not> is_under q real_dst"
  shows "map_of fs' q = map_of fs q"
proof (cases "map_of fs src")
  case None
  with assms show ?thesis by (simp add: move_node_def)
next
  case (Some x)
  have ne: "q \<noteq> src" "q \<noteq> real_dst" using assms(2,3) is_under_refl by auto
  show ?thesis
  proof (cases x)
    case (File c)
    with Some assms(1) ne show ?thesis
      by (auto simp add: move_node_def update_conv' delete_conv'
            split: if_splits option.splits node.splits)
  next
    case Dir
    with Some assms(1) obtain fs1 where
      mk: "makedirs fs (ancestors real_dst) = Inr fs1" and fs': "fs' = rename_tree fs1 src real_dst"
      by (auto simp add: move_node_def split: if_splits sum.splits)
    from assms(4) have "q \<notin> set (ancestors real_dst) \<or> map_of fs q \<noteq> None"
      using ancestors_is_under by blast
    from makedirs_frame [OF mk this] have "map_of fs1 q = map_of fs q" .
    with fs' assms(2,3) show ?thesis by (simp add: rename_tree_frame)
  qed
qed

lemma shutil_move_frame:
  assumes "shutil_move E fs src dst = Inr fs'"
    and "\<not> is_under src q" and "\<not> is_under dst q"
    and "map_of fs q \<noteq> None \<or> \<not> is_under q dst"
  shows "map_of fs' q = map_of fs q"
proof -
  have a: "\<not> is_under (dst @ [name src]) q" using assms(3) is_under_append by blast
  have "q \<noteq> dst @ [name src]" using a is_under_refl by auto
  with assms(4) have b: "map_of fs q \<noteq> None \<or> \<not> is_under q (dst @ [name src])"
    using is_under_snoc by blast
  show ?thesis
  proof (cases "is_dir fs dst")
    case True
    with assms(1) have "fs' = fs \<or> move_node E fs src (dst @ [name src]) = Inr fs'"
      by (auto simp add: shutil_move_def split: if_splits)
    with move_node_frame [OF _ assms(2) a b] show ?thesis by auto
  next
    case False
    with assms(1) have "move_node E fs src dst = Inr fs'" by (simp add: shutil_move_def)
    from move_node_frame [OF this assms(2,3,4)] show ?thesis .
  qed
qed

lemma mkdir_exist_ok_frame:
  "mkdir_exist_ok E fs d = Inr fs' \<Longrightarrow> q \<noteq> d \<or> map_of fs q \<noteq> None
     \<Longrightarrow> map_of fs' q = map_of fs q"
  by (auto simp add: mkdir_exist_ok_def update_conv' split: option.splits node.splits if_splits)

lemma first_category_in_registry:
  "first_category test cats = Some c \<Longrightarrow> c \<in> fst ` set cats"
  by (induction cats) (auto split: if_splits)

lemma categorize_file_in_registry:
  "categorize_file E cats fs p = Inr c \<Longrightarrow> c \<in> category_names cats"
  by (auto simp add: categorize_file_def category_names_def Let_def
        split: sum.splits option.splits if_splits dest: first_category_in_registry)

lemma organize_step_unfold:
  "organize_step E cats source_path skip file_path seen st =
     (if skip \<and> seen_before seen (get_file_hash E (disk st) file_path) then
        (None, seen, insert_END (Skipping_duplicate (name file_path)) st)
      else
        (case categorize_file E cats (disk st) file_path of
           Inl e \<Rightarrow> (Some e, seen, st)
         | Inr c \<Rightarrow>
            (case mkdir_exist_ok E (disk st) (source_path @ [c]) of
               Inl e \<Rightarrow> (Some e, seen, st)
             | Inr fs1 \<Rightarrow>
                (case shutil_move E fs1 file_path (source_path @ [c, name file_path]) of
                   Inr fs2 \<Rightarrow>
                     (None,
                      (if skip then remember seen (get_file_hash E (disk st) file_path)
                                      (source_path @ [c, name file_path])
                       else seen),
                      insert_END (Moved (name file_path) c)
                        (st\<lparr>disk := fs2,
                            move_log := AList.update (source_path @ [c, name file_path])
                                          file_path (move_log st)\<rparr>))
                 | Inl e \<Rightarrow>
                     (None, seen,
                      insert_END (Error_moving (name file_path) e) (st\<lparr>disk := fs1\<rparr>))))))"
  by (cases skip) (simp_all add: organize_step_def Let_def split: sum.splits)

lemma organize_step_cases:
  assumes "organize_step E cats source_path skip file_path seen st = (r, seen', st')"
  obtains
    (skipped) "skip" and "seen_before seen (get_file_hash E (disk st) file_path)"
      and "r = None" and "seen' = seen"
      and "st' = insert_END (Skipping_duplicate (name file_path)) st"
  | (classify_error) e where "categorize_file E cats (disk st) file_path = Inl e"
      and "r = Some e" and "seen' = seen" and "st' = st"
  | (mkdir_error) c e where "categorize_file E cats (disk st) file_path = Inr c"
      and "mkdir_exist_ok E (disk st) (source_path @ [c]) = Inl e"
      and "r = Some e" and "seen' = seen" and "st' = st"
  | (move_error) c fs1 e where
      "\<not> (skip \<and> seen_before seen (get_file_hash E (disk st) file_path))"
      and "categorize_file E cats (disk st) file_path = Inr c"
      and "mkdir_exist_ok E (disk st) (source_path @ [c]) = Inr fs1"
      and "shutil_move E fs1 file_path (source_path @ [c, name file_path]) = Inl e"
      and "r = None" and "seen' = seen"
      and "st' = insert_END (Error_moving (name file_path) e) (st\<lparr>disk := fs1\<rparr>)"
  | (moved) c fs1 fs2 where
      "\<not> (skip \<and> seen_before seen (get_file_hash E (disk st) file_path))"
      and "categorize_file E cats (disk st) file_path = Inr c"
      and "mkdir_exist_ok E (disk st) (source_path @ [c]) = Inr fs1"
      and "shutil_move E fs1 file_path (source_path @ [c, name file_path]) = Inr fs2"
      and "r = None"
      and "seen' = (if skip then remember seen (get_file_hash E (disk st) file_path)
                                 (source_path @ [c, name file_path]) else seen)"
      and "st' = insert_END (Moved (name file_path) c)
                   (st\<lparr>disk := fs2,
                       move_log := AList.update (source_path @ [c, name file_path]) file_path
                                     (move_log st)\<rparr>)"
proof (cases "skip \<and> seen_before seen (get_file_hash E (disk st) file_path)")
  case True
  with assms show ?thesis by (intro skipped) (auto simp add: organize_step_unfold)
next
  case nskip: False
  show ?thesis
  proof (cases "categorize_file E cats (disk st) file_path")
    case (Inl e)
    with nskip assms show ?thesis
      by (intro classify_error [of e]) (auto simp add: organize_step_unfold)
  next
    case cat: (Inr c)
    show ?thesis
    proof (cases "mkdir_exist_ok E (disk st) (source_path @ [c])")
      case (Inl e)
      with nskip cat assms show ?thesis
        by (intro mkdir_error [of c e]) (auto simp add: organize_step_unfold)
    next
      case mk: (Inr fs1)
      show ?thesis
      proof (cases "shutil_move E fs1 file_path (source_path @ [c, name file_path])")
        case (Inl e)
        with nskip cat mk assms show ?thesis
          by (intro move_error [of c fs1 e]) (auto simp add: organize_step_unfold)
      next
        case (Inr fs2)
        with nskip cat mk assms show ?thesis
          by (intro moved [of c fs1 fs2]) (auto simp add: organize_step_unfold)
      qed
    qed
  qed
qed

lemma organize_step_frame:
  assumes "organize_step E cats source_path skip file_path seen st = (r, seen', st')"
    and "\<not> is_under file_path q"
    and "\<forall>c \<in> category_names cats. \<not> is_under (source_path @ [c, name file_path]) q"
    and "map_of (disk st) q \<noteq> None \<or>
         (\<forall>c \<in> category_names cats. \<not> is_under q (source_path @ [c]))"
  shows "map_of (disk st') q = map_of (disk st) q"
  using assms(1)
proof (cases rule: organize_step_cases)
  case skipped
  then show ?thesis by (simp add: insert_END_def)
next
  case (classify_error e)
  then show ?thesis by simp
next
  case (mkdir_error c e)
  then show ?thesis by simp
next
  case (move_error c fs1 e)
  have c: "c \<in> category_names cats"
    using move_error(2) by (rule categorize_file_in_registry)
  have "q \<noteq> source_path @ [c] \<or> map_of (disk st) q \<noteq> None"
    using assms(4) c is_under_refl by blast
  from mkdir_exist_ok_frame [OF move_error(3) this] move_error show ?thesis
    by (simp add: insert_END_def)
next
  case (moved c fs1 fs2)
  have c: "c \<in> category_names cats" using moved(2) by (rule categorize_file_in_registry)
  have "q \<noteq> source_path @ [c] \<or> map_of (disk st) q \<noteq> None"
    using assms(4) c is_under_refl by blast
  from mkdir_exist_ok_frame [OF moved(3) this]
  have q1: "map_of fs1 q = map_of (disk st) q" .
  have t: "\<not> is_under (source_path @ [c, name file_path]) q" using assms(3) c by blast
  then have "q \<noteq> source_path @ [c, name file_path]" using is_under_refl by auto
  moreover have "source_path @ [c, name file_path] = (source_path @ [c]) @ [name file_path]"
    by simp
  ultimately have "map_of fs1 q \<noteq> None \<or> \<not> is_under q (source_path @ [c, name file_path])"
    using assms(4) c q1 is_under_snoc by metis
  from shutil_move_frame [OF moved(4) assms(2) t this] q1
  have "map_of fs2 q = map_of (disk st) q" by simp
  with moved show ?thesis by (simp add: insert_END_def)
qed

lemma organize_loop_frame:
  assumes "organize_loop E cats source_path skip files seen st = (r, seen', st')"
    and "\<forall>f \<in> set files. \<not> is_under f q \<and>
           (\<forall>c \<in> category_names cats. \<not> is_under (source_path @ [c, name f]) q)"
    and "map_of (disk st) q \<noteq> None \<or>
         (\<forall>c \<in> category_names cats. \<not> is_under q (source_path @ [c]))"
  shows "map_of (disk st') q = map_of (disk st) q"
  using assms
proof (induction files arbitrary: seen st)
  case Nil
  then show ?case by simp
next
  case (Cons f files)
  obtain r1 seen1 st1 where
    step: "organize_step E cats source_path skip f seen st = (r1, seen1, st1)"
    by (metis prod_cases3)
  have q1: "map_of (disk st1) q = map_of (disk st) q"
    using organize_step_frame [OF step _ _ Cons.prems(3)] Cons.prems(2) by simp
  show ?case
  proof (cases r1)
    case None
    with step Cons.prems(1)
    have "organize_loop E cats source_path skip files seen1 st1 = (r, seen', st')"
      by simp
    from Cons.IH [OF this] Cons.prems(2,3) q1 show ?thesis by simp
  next
    case (Some e)
    with step Cons.prems(1) have "st' = st1" by simp
    with q1 show ?thesis by simp
  qed
qed

lemma children_parent: "f \<in> set (children fs d) \<Longrightarrow> f \<noteq> [] \<and> parent f = d"
  by (auto simp add: children_def)

lemma path_split: "f \<noteq> [] \<Longrightarrow> parent f = d \<Longrightarrow> f = d @ [name f]"
  by (auto simp add: parent_def name_def)

lemma organize_files_frame_eq:
  assumes "organize_files E cats source_dir skip st = (r, st')"
    and "\<forall>x. is_file (disk st) (source_dir @ [x]) \<longrightarrow>
           \<not> is_under (source_dir @ [x]) q \<and>
           (\<forall>c \<in> category_names cats. \<not> is_under (source_dir @ [c, x]) q)"
    and "map_of (disk st) q \<noteq> None \<or>
         (\<forall>c \<in> category_names cats. \<not> is_under q (source_dir @ [c]))"
  shows "map_of (disk st') q = map_of (disk st) q"
proof (cases "iterdir (disk st) source_dir")
  case (Inl e)
  with assms(1) show ?thesis
    by (auto simp add: organize_files_def insert_END_def split: if_splits)
next
  case (Inr entries)
  then have entries: "entries = children (disk st) source_dir"
    by (auto simp add: iterdir_def split: option.splits node.splits)
  define files where "files = filter (is_file (disk st)) entries"
  define st1 where "st1 = insert_END (Scanning source_dir (length files)) st"
  obtain r2 seen2 st2 where
    loop: "organize_loop E cats source_dir skip files Map.empty st1 = (r2, seen2, st2)"
    by (metis prod_cases3)
  have d1: "disk st1 = disk st" by (simp add: st1_def insert_END_def)
  have "\<forall>f \<in> set files. \<not> is_under f q \<and>
           (\<forall>c \<in> category_names cats. \<not> is_under (source_dir @ [c, name f]) q)"
  proof
    fix f assume "f \<in> set files"
    then have "is_file (disk st) f" and "f = source_dir @ [name f]"
      using children_parent path_split by (auto simp add: files_def entries)
    with assms(2) show "\<not> is_under f q \<and>
           (\<forall>c \<in> category_names cats. \<not> is_under (source_dir @ [c, name f]) q)"
      by metis
  qed
  from organize_loop_frame [OF loop this] assms(3) d1
  have q2: "map_of (disk st2) q = map_of (disk st) q" by simp
  from Inr have "map_of (disk st) source_dir \<noteq> None"
    by (auto simp add: iterdir_def split: option.splits)
  with assms(1) Inr loop have "disk st' = disk st2"
    by (cases r2) (auto simp add: organize_files_def files_def st1_def save_restore_log_def
          insert_END_def Let_def)
  with q2 show ?thesis by simp
qed

lemma is_under_Nil: "is_under [] q"
  by (simp add: is_under_def)

lemma is_under_Cons_Nil: "\<not> is_under (x # p) []"
  by (simp add: is_under_def)

lemma is_under_Cons_Cons: "is_under (x # p) (y # q) \<longleftrightarrow> x = y \<and> is_under p q"
  by (auto simp add: is_under_def)

lemma is_under_append_same: "is_under (s @ p) (s @ q) \<longleftrightarrow> is_under p q"
  by (simp add: is_under_def)

lemmas is_under_simps = is_under_Nil is_under_Cons_Nil is_under_Cons_Cons is_under_append_same

lemma is_file_not_is_dir: "is_file fs p \<Longrightarrow> \<not> is_dir fs p"
  by (auto simp add: is_file_def is_dir_def split: option.splits node.splits)




section \<open>Duplicates\<close>

lemma organize_loop_Cons_None:
  assumes "organize_loop E cats source_path skip (f # files) seen st = (None, seen', st')"
  obtains seen1 st1 where
    "organize_step E cats source_path skip f seen st = (None, seen1, st1)"
    and "organize_loop E cats source_path skip files seen1 st1 = (None, seen', st')"
proof -
  obtain r1 seen1 st1 where
    step: "organize_step E cats source_path skip f seen st = (r1, seen1, st1)"
    by (metis prod_cases3)
  with assms have "r1 = None" by (cases r1) auto
  with step assms that show ?thesis by auto
qed





lemma sibling_untouched:
  assumes "f = source_path @ [x]" and "q = source_path @ [y]" and "f \<noteq> q"
  shows "\<not> is_under f q \<and> (\<forall>c \<in> C. \<not> is_under (source_path @ [c, name f]) q)"
  using assms by (auto simp add: is_under_simps)

lemma organize_step_keeps_sibling:
  assumes "organize_step E cats source_path skip f seen st = (r, seen', st')"
    and "f = source_path @ [name f]" and "q = source_path @ [y]" and "f \<noteq> q"
    and "map_of (disk st) q \<noteq> None"
  shows "map_of (disk st') q = map_of (disk st) q"
proof (rule organize_step_frame [OF assms(1)])
  show "\<not> is_under f q" using sibling_untouched [OF assms(2,3,4)] by blast
  show "\<forall>c \<in> category_names cats. \<not> is_under (source_path @ [c, name f]) q"
    using sibling_untouched [OF assms(2,3,4)] by blast
  show "map_of (disk st) q \<noteq> None \<or>
        (\<forall>c \<in> category_names cats. \<not> is_under q (source_path @ [c]))"
    using assms(5) by simp
qed








lemma organize_step_single_event:
  assumes "organize_step E cats source_path skip f seen st = (None, seen', st')"
  shows "\<exists>ev. log_widget st' = log_widget st @ [ev] \<and>
           (ev = Skipping_duplicate (name f) \<or> (\<exists>c. ev = Moved (name f) c) \<or>
            (\<exists>e. ev = Error_moving (name f) e))"
  using assms
  by (cases rule: organize_step_cases) (auto simp add: insert_END_def)





lemma is_file_exists: "is_file fs p \<Longrightarrow> map_of fs p \<noteq> None"
  by (auto simp add: is_file_def split: option.splits)

lemma distinct_children: "distinct (children fs d)"
  by (simp add: children_def)




section \<open>Which errors stop the loops\<close>

text \<open>The restore loop writes one line for every entry of the log, in the order of the
  log: no entry stops it. The organize loop writes one line for every file when it runs to
  its end, and the only exceptions that end it early are those of \<open>categorize_file\<close> and
  of \<open>mkdir\<close>.\<close>

lemma restore_step_event:
  "\<exists>ev. log_widget (restore_step E entry st) = log_widget st @ [ev] \<and>
        file_of_event ev = Some (name (fst entry))"
  by (cases entry) (auto simp add: restore_step_def insert_END_def split: sum.splits)

lemma restore_loop_attempts_every_entry:
  "\<exists>evs. log_widget (restore_loop E entries st) = log_widget st @ evs \<and>
         map file_of_event evs = map (\<lambda>entry. Some (name (fst entry))) entries"
proof (induction entries arbitrary: st)
  case Nil
  then show ?case by simp
next
  case (Cons entry entries)
  from restore_step_event [of E entry st] obtain ev where
    e1: "log_widget (restore_step E entry st) = log_widget st @ [ev]"
    and n1: "file_of_event ev = Some (name (fst entry))" by blast
  from Cons.IH [of "restore_step E entry st"] obtain evs where
    e2: "log_widget (restore_loop E entries (restore_step E entry st))
           = log_widget (restore_step E entry st) @ evs"
    and n2: "map file_of_event evs = map (\<lambda>entry. Some (name (fst entry))) entries" by blast
  from e1 e2 have "log_widget (restore_loop E (entry # entries) st) = log_widget st @ (ev # evs)"
    by simp
  moreover from n1 n2
  have "map file_of_event (ev # evs) = map (\<lambda>entry. Some (name (fst entry))) (entry # entries)"
    by simp
  ultimately show ?case by blast
qed

lemma organize_loop_attempts_every_file:
  assumes "organize_loop E cats source_path skip files seen st = (None, seen', st')"
  shows "\<exists>evs. log_widget st' = log_widget st @ evs \<and>
               map file_of_event evs = map (\<lambda>f. Some (name f)) files"
  using assms
proof (induction files arbitrary: seen st)
  case Nil
  then show ?case by simp
next
  case (Cons f files)
  from Cons.prems obtain seen1 st1 where
    step: "organize_step E cats source_path skip f seen st = (None, seen1, st1)"
    and rest: "organize_loop E cats source_path skip files seen1 st1 = (None, seen', st')"
    by (rule organize_loop_Cons_None)
  from organize_step_single_event [OF step] obtain ev where
    e1: "log_widget st1 = log_widget st @ [ev]" and n1: "file_of_event ev = Some (name f)"
    by auto
  from Cons.IH [OF rest] obtain evs where
    e2: "log_widget st' = log_widget st1 @ evs"
    and n2: "map file_of_event evs = map (\<lambda>f. Some (name f)) files" by blast
  from e1 e2 have "log_widget st' = log_widget st @ (ev # evs)" by simp
  moreover from n1 n2
  have "map file_of_event (ev # evs) = map (\<lambda>f. Some (name f)) (f # files)" by simp
  ultimately show ?case by blast
qed

lemma organize_step_stops_only_outside_try:
  assumes "organize_step E cats source_path skip f seen st = (Some e, seen', st')"
  shows "categorize_file E cats (disk st) f = Inl e \<or>
         (\<exists>c. categorize_file E cats (disk st) f = Inr c \<and>
              mkdir_exist_ok E (disk st) (source_path @ [c]) = Inl e)"
  using assms
  by (cases rule: organize_step_cases) auto

section \<open>Organize, then restore, when the original paths are free\<close>

text \<open>Replaying a log whose entries are all restorable, with distinct targets and distinct
  original paths, puts the file of every target at its original path.\<close>

lemma restore_step_moves_back:
  assumes "restorable E (disk st) (t, orig)"
  shows "\<exists>c. map_of (disk st) t = Some (File c) \<and>
             disk (restore_step E (t, orig) st)
               = AList.update orig (File c) (AList.delete t (disk st)) \<and>
             log_widget (restore_step E (t, orig) st) = log_widget st @ [Restored (name t)]"
proof -
  from assms obtain c where c: "map_of (disk st) t = Some (File c)"
    by (auto simp add: restorable_def is_file_def split: option.splits node.splits)
  from assms have free: "map_of (disk st) orig = None"
    and par: "map_of (disk st) (parent orig) = Some Dir"
    and allowed: "\<not> move_denied E t orig"
    by (simp_all add: restorable_def is_dir_def)
  from c free have ne: "t \<noteq> orig" by auto
  from free have nd: "\<not> is_dir (disk st) orig" by (simp add: is_dir_def)
  have "shutil_move E (disk st) t orig
          = Inr (AList.update orig (File c) (AList.delete t (disk st)))"
    using c par allowed ne nd by (simp add: shutil_move_def move_node_def)
  with c show ?thesis by (simp add: restore_step_def insert_END_def)
qed

lemma restore_loop_round_trip:
  assumes "\<forall>entry \<in> set L. restorable E (disk st) entry"
    and "distinct (map fst L)" and "distinct (map snd L)"
    and "fst ` set L \<inter> snd ` set L = {}"
  shows "(\<forall>(t, orig) \<in> set L.
            map_of (disk (restore_loop E L st)) orig = map_of (disk st) t \<and>
            map_of (disk (restore_loop E L st)) t = None) \<and>
         (\<forall>q. q \<notin> fst ` set L \<union> snd ` set L \<longrightarrow>
            map_of (disk (restore_loop E L st)) q = map_of (disk st) q) \<and>
         log_widget (restore_loop E L st) = log_widget st @ map (\<lambda>entry. Restored (name (fst entry))) L"
  using assms
proof (induction L arbitrary: st)
  case Nil
  then show ?case by simp
next
  case (Cons entry L)
  obtain t orig where entry: "entry = (t, orig)" by (cases entry)
  define st1 where "st1 = restore_step E (t, orig) st"
  from Cons.prems(1) entry have r: "restorable E (disk st) (t, orig)" by simp
  from restore_step_moves_back [OF r] obtain c where
    c: "map_of (disk st) t = Some (File c)"
    and d1: "disk st1 = AList.update orig (File c) (AList.delete t (disk st))"
    and l1: "log_widget st1 = log_widget st @ [Restored (name t)]"
    by (auto simp add: st1_def)
  from r have free: "map_of (disk st) orig = None" by (simp add: restorable_def)
  from c free have ne: "t \<noteq> orig" by auto
  have m1: "map_of (disk st1) q = (if q = orig then Some (File c) else if q = t then None
                                  else map_of (disk st) q)" for q
    by (simp add: d1 update_conv' delete_conv')
  have tn: "t \<notin> fst ` set L" and on: "orig \<notin> snd ` set L"
    using Cons.prems(2,3) entry by (auto simp add: image_iff)
  have tn': "t \<notin> snd ` set L" and on': "orig \<notin> fst ` set L"
    using Cons.prems(4) entry by auto
  have rest: "\<forall>e \<in> set L. restorable E (disk st1) e"
  proof
    fix e assume e: "e \<in> set L"
    obtain t' o' where e': "e = (t', o')" by (cases e)
    from e e' tn on tn' on' have d: "t' \<noteq> t" "t' \<noteq> orig" "o' \<noteq> orig" "o' \<noteq> t"
      by (auto simp add: image_iff)
    from Cons.prems(1) e e' have r': "restorable E (disk st) (t', o')" by auto
    then have "map_of (disk st) (parent o') = Some Dir" by (simp add: restorable_def is_dir_def)
    with c free have "parent o' \<noteq> t" "parent o' \<noteq> orig" by auto
    with r' d show "restorable E (disk st1) e"
      by (simp add: e' restorable_def is_file_def is_dir_def m1)
  qed
  have dists: "distinct (map fst L)" "distinct (map snd L)" "fst ` set L \<inter> snd ` set L = {}"
    using Cons.prems(2,3,4) by auto
  from Cons.IH [OF rest dists] have
    ih1: "\<forall>(t', o') \<in> set L.
            map_of (disk (restore_loop E L st1)) o' = map_of (disk st1) t' \<and>
            map_of (disk (restore_loop E L st1)) t' = None"
    and ih2: "\<forall>q. q \<notin> fst ` set L \<union> snd ` set L \<longrightarrow>
            map_of (disk (restore_loop E L st1)) q = map_of (disk st1) q"
    and ih3: "log_widget (restore_loop E L st1)
                = log_widget st1 @ map (\<lambda>entry. Restored (name (fst entry))) L"
    by auto
  have fin: "restore_loop E (entry # L) st = restore_loop E L st1"
    by (simp add: entry st1_def)
  have a: "\<forall>(t', o') \<in> set (entry # L).
            map_of (disk (restore_loop E (entry # L) st)) o' = map_of (disk st) t' \<and>
            map_of (disk (restore_loop E (entry # L) st)) t' = None"
  proof
    fix e assume e: "e \<in> set (entry # L)"
    obtain t' o' where e': "e = (t', o')" by (cases e)
    show "case e of (t', o') \<Rightarrow>
            map_of (disk (restore_loop E (entry # L) st)) o' = map_of (disk st) t' \<and>
            map_of (disk (restore_loop E (entry # L) st)) t' = None"
    proof (cases "e = entry")
      case True
      with e' entry have eq: "t' = t" "o' = orig" by auto
      from ih2 on on' have "map_of (disk (restore_loop E L st1)) orig = map_of (disk st1) orig"
        by simp
      moreover from ih2 tn tn' have "map_of (disk (restore_loop E L st1)) t = map_of (disk st1) t"
        by simp
      ultimately show ?thesis unfolding fin e' eq using c ne by (simp add: m1)
    next
      case False
      with e have eL: "e \<in> set L" by simp
      with e' tn on tn' on' have d: "t' \<noteq> t" "t' \<noteq> orig"
        by (auto simp add: image_iff)
      from ih1 eL e' have "map_of (disk (restore_loop E L st1)) o' = map_of (disk st1) t'"
        and "map_of (disk (restore_loop E L st1)) t' = None" by auto
      with d show ?thesis unfolding fin e' by (simp add: m1)
    qed
  qed
  have b: "\<forall>q. q \<notin> fst ` set (entry # L) \<union> snd ` set (entry # L) \<longrightarrow>
            map_of (disk (restore_loop E (entry # L) st)) q = map_of (disk st) q"
    unfolding fin using ih2 by (auto simp add: m1 entry)
  have c': "log_widget (restore_loop E (entry # L) st)
              = log_widget st @ map (\<lambda>entry. Restored (name (fst entry))) (entry # L)"
    unfolding fin using ih3 l1 by (simp add: entry)
  from a b c' show ?case by blast
qed

lemma cleanup_step_keeps_files:
  "\<not> is_dir (disk st) q \<Longrightarrow> map_of (disk (cleanup_step E subdir st)) q = map_of (disk st) q"
  by (auto simp add: cleanup_step_def insert_END_def delete_conv')

lemma cleanup_loop_keeps_files:
  "\<not> is_dir (disk st) q \<Longrightarrow> map_of (disk (cleanup_loop E subdirs st)) q = map_of (disk st) q"
proof (induction subdirs arbitrary: st)
  case Nil
  then show ?case by simp
next
  case (Cons d ds)
  from cleanup_step_keeps_files [OF Cons.prems, of E d]
  have k: "map_of (disk (cleanup_step E d st)) q = map_of (disk st) q" .
  with Cons.prems have "\<not> is_dir (disk (cleanup_step E d st)) q" by (simp add: is_dir_def)
  from Cons.IH [OF this] k show ?case by simp
qed

lemma restore_files_round_trip:
  assumes log: "RESTORE_LOG st = Some (Json L)"
    and ok: "\<forall>entry \<in> set L. restorable E (disk st) entry"
    and dist: "distinct (map fst L)" "distinct (map snd L)" "fst ` set L \<inter> snd ` set L = {}"
    and e: "(t, orig) \<in> set L"
  shows "map_of (disk (snd (restore_files E cleanup_empty st))) orig = map_of (disk st) t \<and>
         map_of (disk (snd (restore_files E cleanup_empty st))) t = None \<and>
         is_file (disk st) t"
proof -
  from e obtain e0 rest where L: "L = e0 # rest" by (cases L) auto
  obtain t0 o0 where e0: "e0 = (t0, o0)" by (cases e0)
  define st0 where "st0 = insert_END (Restoring (length L)) st"
  define st1 where "st1 = restore_loop E L st0"
  have d0: "disk st0 = disk st" by (simp add: st0_def insert_END_def)
  from ok d0 have ok0: "\<forall>entry \<in> set L. restorable E (disk st0) entry" by simp
  from restore_loop_round_trip [OF ok0 dist] e d0
  have r1: "map_of (disk st1) orig = map_of (disk st) t" and r2: "map_of (disk st1) t = None"
    by (auto simp add: st1_def)
  from ok e have f: "is_file (disk st) t" by (auto simp add: restorable_def)
  with r1 have nd1: "\<not> is_dir (disk st1) orig"
    by (auto simp add: is_file_def is_dir_def split: option.splits node.splits)
  from r2 have nd2: "\<not> is_dir (disk st1) t" by (simp add: is_dir_def)
  have "map_of (disk (snd (restore_files E cleanup_empty st))) q = map_of (disk st1) q"
    if "\<not> is_dir (disk st1) q" for q
    using log cleanup_loop_keeps_files [OF that, of E]
    by (auto simp add: restore_files_def L e0 st1_def st0_def insert_END_def Let_def
          split: sum.splits)
  with nd1 nd2 r1 r2 f show ?thesis by simp
qed

text \<open>What a run that returns has logged, starting from an empty \<open>move_log\<close> as
  \<open>start_organizing\<close> does.\<close>

lemma is_file_cong: "map_of fs p = map_of fs' p \<Longrightarrow> is_file fs p = is_file fs' p"
  by (simp add: is_file_def)

lemma is_dir_cong: "map_of fs p = map_of fs' p \<Longrightarrow> is_dir fs p = is_dir fs' p"
  by (simp add: is_dir_def)

lemma mkdir_exist_ok_is_dir: "mkdir_exist_ok E fs d = Inr fs' \<Longrightarrow> is_dir fs' d"
  by (auto simp add: mkdir_exist_ok_def is_dir_def update_conv'
        split: option.splits node.splits if_splits)

lemma move_node_file_lands:
  assumes "move_node E fs src real_dst = Inr fs'" and "map_of fs src = Some (File x)"
  shows "src = real_dst \<and> fs' = fs \<or>
         src \<noteq> real_dst \<and> fs' = AList.update real_dst (File x) (AList.delete src fs)"
  using assms
  by (auto simp add: move_node_def split: if_splits option.splits node.splits)

lemma shutil_move_file_lands:
  assumes mv: "shutil_move E fs src dst = Inr fs'" and src: "map_of fs src = Some (File x)"
    and ne: "src \<noteq> dst" and land: "map_of fs' dst = Some (File y)"
  shows "y = x"
proof (cases "is_dir fs dst")
  case True
  with mv ne have m: "move_node E fs src (dst @ [name src]) = Inr fs'"
    by (auto simp add: shutil_move_def split: if_splits)
  from move_node_file_lands [OF m src] ne True
  have "map_of fs' dst = Some Dir"
    by (auto simp add: is_dir_def update_conv' delete_conv')
  with land show ?thesis by simp
next
  case False
  with mv have m: "move_node E fs src dst = Inr fs'" by (simp add: shutil_move_def)
  from move_node_file_lands [OF m src] ne
  have "map_of fs' dst = Some (File x)" by (auto simp add: update_conv')
  with land show ?thesis by simp
qed

lemma set_update_subset: "set (AList.update k v al) \<subseteq> insert (k, v) (set al)"
  by (induction al) auto

lemma distinct_snd_update:
  "distinct (map snd al) \<Longrightarrow> v \<notin> snd ` set al \<Longrightarrow> distinct (map snd (AList.update k v al))"
proof (induction al)
  case Nil
  then show ?case by simp
next
  case (Cons p al)
  have "snd ` set (AList.update k v al) \<subseteq> insert v (snd ` set al)"
    using set_update_subset [of k v al] by force
  with Cons show ?case by (auto simp add: image_iff)
qed

lemma organize_step_log_invariant:
  assumes step: "organize_step E cats source_path skip f seen st = (None, seen', st')"
    and P1: "\<forall>g \<in> set (f # rest). g = source_path @ [name g] \<and> is_file fs0 g \<and>
                map_of (disk st) g = map_of fs0 g"
    and P2: "distinct (f # rest)"
    and P3: "\<forall>entry \<in> set (move_log st). log_entry_ok cats source_path fs0 (disk st) (f # rest) entry"
    and P4: "distinct (map fst (move_log st)) \<and> distinct (map snd (move_log st))"
  shows "(\<forall>g \<in> set rest. map_of (disk st') g = map_of fs0 g) \<and>
         (\<forall>entry \<in> set (move_log st'). log_entry_ok cats source_path fs0 (disk st') rest entry) \<and>
         distinct (map fst (move_log st')) \<and> distinct (map snd (move_log st'))"
proof -
  have pf: "f = source_path @ [name f]" and ff: "is_file (disk st) f"
    and f0: "map_of (disk st) f = map_of fs0 f"
    using P1 is_file_cong [of "disk st" f fs0] by auto
  have sib: "map_of (disk st') g = map_of fs0 g" if "g \<in> set rest" for g
  proof -
    from that P1 P2 have "g = source_path @ [name g]" and "f \<noteq> g"
      and g0: "map_of (disk st) g = map_of fs0 g" and "is_file fs0 g" by auto
    then have "map_of (disk st) g \<noteq> None" using is_file_exists by metis
    from organize_step_keeps_sibling [OF step pf \<open>g = source_path @ [name g]\<close> \<open>f \<noteq> g\<close> this] g0
    show ?thesis by simp
  qed
  have old: "log_entry_ok cats source_path fs0 (disk st') rest (t, orig)"
    if mem: "(t, orig) \<in> set (move_log st)" for t orig
  proof -
    from P3 mem have ok: "log_entry_ok cats source_path fs0 (disk st) (f # rest) (t, orig)" by blast
    then obtain c where c: "c \<in> category_names cats" and t: "t = source_path @ [c, name orig]"
      and of: "orig \<noteq> f" and po: "orig = source_path @ [name orig]"
      and pd: "is_dir (disk st) (parent t)"
      by (auto simp add: log_entry_ok_def)
    have par: "parent t = source_path @ [c]" by (simp add: t parent_def butlast_append)
    from pd ff have fne: "f \<noteq> source_path @ [c]"
      using is_file_not_is_dir par by auto
    with pf have nfc: "name f \<noteq> c" by auto
    from of pf po have nfo: "name f \<noteq> name orig" by metis
    have keep_t: "map_of (disk st') t = map_of (disk st) t"
    proof (rule organize_step_frame [OF step])
      have "\<not> is_under (source_path @ [name f]) t"
        using nfc by (simp add: t is_under_simps)
      with pf show "\<not> is_under f t" by metis
      show "\<forall>c' \<in> category_names cats. \<not> is_under (source_path @ [c', name f]) t"
        using nfo by (simp add: t is_under_simps)
      show "map_of (disk st) t \<noteq> None \<or>
            (\<forall>c' \<in> category_names cats. \<not> is_under t (source_path @ [c']))"
        by (simp add: t is_under_simps)
    qed
    have keep_p: "map_of (disk st') (parent t) = map_of (disk st) (parent t)"
    proof (rule organize_step_frame [OF step])
      have "\<not> is_under (source_path @ [name f]) (parent t)"
        using nfc by (simp add: par is_under_simps)
      with pf show "\<not> is_under f (parent t)" by metis
      show "\<forall>c' \<in> category_names cats. \<not> is_under (source_path @ [c', name f]) (parent t)"
        by (simp add: par is_under_simps)
      show "map_of (disk st) (parent t) \<noteq> None \<or>
            (\<forall>c' \<in> category_names cats. \<not> is_under (parent t) (source_path @ [c']))"
        using pd by (simp add: is_dir_def)
    qed
    from ok keep_t is_dir_cong [OF keep_p] show ?thesis
      by (auto simp add: log_entry_ok_def)
  qed
  from step show ?thesis
  proof (cases rule: organize_step_cases)
    case skipped
    then have "move_log st' = move_log st" by (simp add: insert_END_def)
    with sib old P4 show ?thesis by auto
  next
    case (move_error c fs1 e)
    then have "move_log st' = move_log st" by (simp add: insert_END_def)
    with sib old P4 show ?thesis by auto
  next
    case (moved c fs1 fs2)
    let ?t = "source_path @ [c, name f]"
    have ml: "move_log st' = AList.update ?t f (move_log st)"
      and d': "disk st' = fs2"
      using moved(7) by (simp_all add: insert_END_def)
    have c: "c \<in> category_names cats" using moved(2) by (rule categorize_file_in_registry)
    from ff obtain x where x: "map_of (disk st) f = Some (File x)"
      by (auto simp add: is_file_def split: option.splits node.splits)
    have x1: "map_of fs1 f = Some (File x)"
      using mkdir_exist_ok_frame [OF moved(3), of f] x by simp
    have dirc: "is_dir fs1 (source_path @ [c])" using moved(3) by (rule mkdir_exist_ok_is_dir)
    with x1 have fne: "f \<noteq> source_path @ [c]" by (auto simp add: is_dir_def)
    with pf have nfc: "name f \<noteq> c" by auto
    have ne: "f \<noteq> ?t" using pf by (metis append_eq_append_conv length_Cons list.inject
          list.size(3) n_not_Suc_n)
    have lands: "\<forall>y. map_of fs2 ?t = Some (File y) \<longrightarrow> map_of fs0 f = Some (File y)"
      using shutil_move_file_lands [OF moved(4) x1 ne] x f0 by auto
    have "map_of fs2 (source_path @ [c]) = map_of fs1 (source_path @ [c])"
    proof (rule shutil_move_frame [OF moved(4)])
      have "\<not> is_under (source_path @ [name f]) (source_path @ [c])"
        using nfc by (simp add: is_under_simps)
      with pf show "\<not> is_under f (source_path @ [c])" by metis
      show "\<not> is_under ?t (source_path @ [c])" by (simp add: is_under_simps)
      show "map_of fs1 (source_path @ [c]) \<noteq> None \<or> \<not> is_under (source_path @ [c]) ?t"
        using dirc by (simp add: is_dir_def)
    qed
    with dirc have dir2: "is_dir fs2 (parent ?t)"
      by (simp add: is_dir_def parent_def butlast_append)
    have fresh: "f \<notin> snd ` set (move_log st)"
    proof
      assume "f \<in> snd ` set (move_log st)"
      then obtain t where "(t, f) \<in> set (move_log st)" by auto
      with P3 show False by (auto simp add: log_entry_ok_def)
    qed
    have new: "log_entry_ok cats source_path fs0 (disk st') rest (?t, f)"
      using P1 P2 c lands dir2 pf by (auto simp add: log_entry_ok_def d')
    have "\<forall>entry \<in> set (move_log st'). log_entry_ok cats source_path fs0 (disk st') rest entry"
    proof
      fix entry assume "entry \<in> set (move_log st')"
      with ml set_update_subset [of ?t f "move_log st"]
      have "entry = (?t, f) \<or> entry \<in> set (move_log st)" by auto
      with new old show "log_entry_ok cats source_path fs0 (disk st') rest entry"
        by (cases entry) auto
    qed
    moreover have "distinct (map fst (move_log st'))"
      using P4 by (simp add: ml distinct_update)
    moreover have "distinct (map snd (move_log st'))"
      using P4 fresh by (simp add: ml distinct_snd_update)
    ultimately show ?thesis using sib by blast
  qed simp_all
qed

lemma organize_loop_log_invariant:
  assumes "organize_loop E cats source_path skip files seen st = (None, seen', st')"
    and "\<forall>g \<in> set files. g = source_path @ [name g] \<and> is_file fs0 g \<and>
                map_of (disk st) g = map_of fs0 g"
    and "distinct files"
    and "\<forall>entry \<in> set (move_log st). log_entry_ok cats source_path fs0 (disk st) files entry"
    and "distinct (map fst (move_log st)) \<and> distinct (map snd (move_log st))"
  shows "(\<forall>entry \<in> set (move_log st'). log_entry_ok cats source_path fs0 (disk st') [] entry) \<and>
         distinct (map fst (move_log st')) \<and> distinct (map snd (move_log st'))"
  using assms
proof (induction files arbitrary: seen st)
  case Nil
  then show ?case by simp
next
  case (Cons f rest)
  from Cons.prems(1) obtain seen1 st1 where
    step: "organize_step E cats source_path skip f seen st = (None, seen1, st1)"
    and loop: "organize_loop E cats source_path skip rest seen1 st1 = (None, seen', st')"
    by (rule organize_loop_Cons_None)
  from organize_step_log_invariant [OF step Cons.prems(2,3,4,5)]
  have k: "\<forall>g \<in> set rest. map_of (disk st1) g = map_of fs0 g"
    and l: "\<forall>entry \<in> set (move_log st1). log_entry_ok cats source_path fs0 (disk st1) rest entry"
    and d: "distinct (map fst (move_log st1)) \<and> distinct (map snd (move_log st1))"
    by blast+
  from Cons.prems(2) k
  have p: "\<forall>g \<in> set rest. g = source_path @ [name g] \<and> is_file fs0 g \<and>
                map_of (disk st1) g = map_of fs0 g" by simp
  from Cons.prems(3) have "distinct rest" by simp
  from Cons.IH [OF loop p this l d] show ?case .
qed

lemma organize_files_log:
  assumes dir: "is_dir (disk st) source_dir"
    and empty: "move_log st = []"
    and run: "organize_files E cats source_dir skip st = (None, st')"
  shows "(\<forall>entry \<in> set (move_log st').
            log_entry_ok cats source_dir (disk st) (disk st') [] entry) \<and>
         distinct (map fst (move_log st')) \<and> distinct (map snd (move_log st')) \<and>
         (\<not> log_unwritable E \<longrightarrow> RESTORE_LOG st' = Some (Json (move_log st')))"
proof -
  define files where "files = filter (is_file (disk st)) (children (disk st) source_dir)"
  define st1 where "st1 = insert_END (Scanning source_dir (length files)) st"
  have d1: "disk st1 = disk st" and m1: "move_log st1 = []"
    by (simp_all add: st1_def insert_END_def empty)
  from dir have it: "iterdir (disk st) source_dir = Inr (children (disk st) source_dir)"
    and ex: "map_of (disk st) source_dir \<noteq> None"
    by (simp_all add: iterdir_def is_dir_def)
  obtain r2 seen2 st2 where
    loop0: "organize_loop E cats source_dir skip files Map.empty st1 = (r2, seen2, st2)"
    by (metis prod_cases3)
  with run it ex have r2: "r2 = None" and st': "st' = save_restore_log E st2"
    by (cases r2; simp add: organize_files_def files_def st1_def)+
  have p: "\<forall>g \<in> set files. g = source_dir @ [name g] \<and> is_file (disk st) g \<and>
                map_of (disk st1) g = map_of (disk st) g"
    using children_parent path_split by (auto simp add: files_def d1)
  have dist: "distinct files" by (simp add: files_def distinct_children)
  from loop0 r2 have loop:
    "organize_loop E cats source_dir skip files Map.empty st1 = (None, seen2, st2)" by simp
  from organize_loop_log_invariant [OF loop p dist] m1
  have "(\<forall>entry \<in> set (move_log st2).
            log_entry_ok cats source_dir (disk st) (disk st2) [] entry) \<and>
         distinct (map fst (move_log st2)) \<and> distinct (map snd (move_log st2))"
    by simp
  moreover have "disk st' = disk st2" and "move_log st' = move_log st2"
    and "\<not> log_unwritable E \<longrightarrow> RESTORE_LOG st' = Some (Json (move_log st'))"
    by (simp_all add: st' save_restore_log_def insert_END_def)
  ultimately show ?thesis by simp
qed

lemma organize_then_restore:
  assumes dir: "is_dir (disk st) source_dir"
    and empty: "move_log st = []"
    and run: "organize_files E cats source_dir skip st = (None, st1)"
    and saved: "\<not> log_unwritable E"
    and ready: "\<forall>(t, orig) \<in> set (move_log st1).
                  is_file (disk st1) t \<and> map_of (disk st1) orig = None \<and> \<not> move_denied E t orig"
    and entry: "(t, orig) \<in> set (move_log st1)"
  shows "is_file (disk st) orig \<and> parent orig = source_dir \<and>
         map_of (disk (snd (restore_files E cleanup_empty st1))) orig = map_of (disk st) orig \<and>
         map_of (disk (snd (restore_files E cleanup_empty st1))) t = None"
proof -
  let ?L = "move_log st1"
  from organize_files_log [OF dir empty run] saved
  have ok: "\<forall>entry \<in> set ?L. log_entry_ok cats source_dir (disk st) (disk st1) [] entry"
    and d1: "distinct (map fst ?L)" and d2: "distinct (map snd ?L)"
    and log: "RESTORE_LOG st1 = Some (Json ?L)" by auto
  have src: "map_of (disk st1) source_dir = map_of (disk st) source_dir"
  proof (rule organize_files_frame_eq [OF run])
    show "\<forall>x. is_file (disk st) (source_dir @ [x]) \<longrightarrow>
           \<not> is_under (source_dir @ [x]) source_dir \<and>
           (\<forall>c \<in> category_names cats. \<not> is_under (source_dir @ [c, x]) source_dir)"
      by (simp add: is_under_longer)
    show "map_of (disk st) source_dir \<noteq> None \<or>
         (\<forall>c \<in> category_names cats. \<not> is_under source_dir (source_dir @ [c]))"
      using dir by (simp add: is_dir_def)
  qed
  have shape: "length t' = length source_dir + 2 \<and> length o' = length source_dir + 1 \<and>
               parent o' = source_dir"
    if "(t', o') \<in> set ?L" for t' o'
  proof -
    from ok that obtain c where o: "o' = source_dir @ [name o']"
      and t: "t' = source_dir @ [c, name o']" by (auto simp add: log_entry_ok_def)
    have "length o' = length source_dir + 1" by (subst o) simp
    moreover have "parent o' = source_dir" by (subst o) (simp add: parent_def)
    moreover have "length t' = length source_dir + 2" by (simp add: t)
    ultimately show ?thesis by simp
  qed
  have rest: "\<forall>e \<in> set ?L. restorable E (disk st1) e"
  proof
    fix e assume e: "e \<in> set ?L"
    obtain t' o' where e': "e = (t', o')" by (cases e)
    from shape e e' have "parent o' = source_dir" by blast
    with dir src have "is_dir (disk st1) (parent o')" by (simp add: is_dir_def)
    with ready e e' show "restorable E (disk st1) e" by (auto simp add: restorable_def)
  qed
  have disj: "fst ` set ?L \<inter> snd ` set ?L = {}"
  proof (rule ccontr)
    assume "fst ` set ?L \<inter> snd ` set ?L \<noteq> {}"
    then obtain ta oa tb ob where "(ta, oa) \<in> set ?L" and "(tb, ob) \<in> set ?L"
      and "ta = ob" by force
    with shape [of ta oa] shape [of tb ob] show False by simp
  qed
  from restore_files_round_trip [OF log rest d1 d2 disj entry, of cleanup_empty]
  have returned: "map_of (disk (snd (restore_files E cleanup_empty st1))) orig = map_of (disk st1) t"
    and gone: "map_of (disk (snd (restore_files E cleanup_empty st1))) t = None"
    and isf: "is_file (disk st1) t" by auto
  from isf obtain x where x: "map_of (disk st1) t = Some (File x)"
    by (auto simp add: is_file_def split: option.splits node.splits)
  from ok entry x have "map_of (disk st) orig = Some (File x)" and "is_file (disk st) orig"
    by (auto simp add: log_entry_ok_def)
  with returned gone x shape [OF entry] show ?thesis by simp
qed

text \<open>The two files of the example directory come back.\<close>

lemma organize_then_restore_example:
  "map_of (disk (snd (restore_files example_env True
                       (snd (organize_files example_env CATEGORIES [''src''] False twins_state)))))
     [''src'', ''a.txt''] = Some (File ''same'') \<and>
   map_of (disk (snd (restore_files example_env True
                       (snd (organize_files example_env CATEGORIES [''src''] False twins_state)))))
     [''src'', ''Documents'', ''a.txt''] = None"
proof -
  let ?st1 = "snd (organize_files example_env CATEGORIES [''src''] False twins_state)"
  have dir: "is_dir (disk twins_state) [''src'']" by code_simp
  have empty: "move_log twins_state = []" by code_simp
  have run: "organize_files example_env CATEGORIES [''src''] False twins_state = (None, ?st1)"
    by code_simp
  have saved: "\<not> log_unwritable example_env" by code_simp
  have log: "move_log ?st1 =
               [([''src'', ''Documents'', ''a.txt''], [''src'', ''a.txt'']),
                ([''src'', ''Documents'', ''b.txt''], [''src'', ''b.txt''])]"
    by code_simp
  have a: "is_file (disk ?st1) [''src'', ''Documents'', ''a.txt'']"
    "is_file (disk ?st1) [''src'', ''Documents'', ''b.txt'']"
    "map_of (disk ?st1) [''src'', ''a.txt''] = None"
    "map_of (disk ?st1) [''src'', ''b.txt''] = None"
    by code_simp+
  have d: "\<not> move_denied example_env t orig" for t orig
    by (simp add: example_env_def)
  have ready: "\<forall>(t, orig) \<in> set (move_log ?st1).
                  is_file (disk ?st1) t \<and> map_of (disk ?st1) orig = None \<and>
                  \<not> move_denied example_env t orig"
    unfolding log using a d by simp
  have entry: "([''src'', ''Documents'', ''a.txt''], [''src'', ''a.txt'']) \<in> set (move_log ?st1)"
    unfolding log by simp
  have before: "map_of (disk twins_state) [''src'', ''a.txt''] = Some (File ''same'')"
    by code_simp
  from organize_then_restore [OF dir empty run saved ready entry, of True] before
  show ?thesis by simp
qed

end
